theory Spec2Isabelle
  imports Main "HOL-Library.AList"
begin

section \<open>Quizzy: the game-session engine of \<^verbatim>\<open>server/src/index.ts\<close>\<close>

text \<open>
  The server keeps every quiz session in the process-wide map \<^verbatim>\<open>activeGames\<close> and reacts to
  six socket messages (\<^verbatim>\<open>createGame\<close>, \<^verbatim>\<open>joinGame\<close>, \<^verbatim>\<open>submitAnswer\<close>, \<^verbatim>\<open>nextQuestion\<close>,
  \<^verbatim>\<open>startCountdown\<close>, \<^verbatim>\<open>disconnect\<close>) and to the callbacks it hands to \<^verbatim>\<open>setTimeout\<close>.
  Each handler is a function from the server state to the new state and the list of
  messages it emits, in emission order.
\<close>

subsection \<open>Data model\<close>

text \<open>
  The interfaces \<^verbatim>\<open>Player\<close>, \<^verbatim>\<open>Question\<close> and \<^verbatim>\<open>Quiz\<close>. A JavaScript \<^verbatim>\<open>number\<close> that holds a
  score or an answer index is an \<^typ>\<open>int\<close>; the time limit (whole seconds) and the
  current-question index (starts at 0 and is only ever incremented) are \<^typ>\<open>nat\<close>.
  The field \<^verbatim>\<open>id\<close> of a player is \<open>playerId\<close>, the fields \<^verbatim>\<open>id\<close> and \<^verbatim>\<open>text\<close> of a question
  are \<open>questionId\<close> and \<open>questionText\<close>, the field \<^verbatim>\<open>id\<close> of a quiz is \<open>quizId\<close>.
\<close>

record Player =
  playerId :: string
  username :: string
  score :: int

record Question =
  questionId :: string
  questionText :: string
  options :: "string list"
  correctAnswer :: int
  timeLimit :: nat

record Quiz =
  quizId :: string
  title :: string
  questions :: "Question list"

text \<open>
  A JavaScript \<^verbatim>\<open>Map\<close> iterates in insertion order, and \<^verbatim>\<open>set\<close> on a key that is present
  keeps the key's position: an association list with in-place update.
\<close>

type_synonym ('k, 'v) js_map = "('k \<times> 'v) list"

definition map_get :: "('k, 'v) js_map \<Rightarrow> 'k \<Rightarrow> 'v option" where
  "map_get m k = map_of m k"

definition map_has :: "('k, 'v) js_map \<Rightarrow> 'k \<Rightarrow> bool" where
  "map_has m k = (map_of m k \<noteq> None)"

definition map_set :: "'k \<Rightarrow> 'v \<Rightarrow> ('k, 'v) js_map \<Rightarrow> ('k, 'v) js_map" where
  "map_set k v m = AList.update k v m"

definition map_delete :: "'k \<Rightarrow> ('k, 'v) js_map \<Rightarrow> ('k, 'v) js_map" where
  "map_delete k m = AList.delete k m"

definition map_values :: "('k, 'v) js_map \<Rightarrow> 'v list" where
  "map_values m = map snd m"

definition map_keys :: "('k, 'v) js_map \<Rightarrow> 'k list" where
  "map_keys m = map fst m"

text \<open>Reading a JavaScript array past its end gives \<^verbatim>\<open>undefined\<close>.\<close>

definition nth_opt :: "'a list \<Rightarrow> nat \<Rightarrow> 'a option" where
  "nth_opt xs i = (if i < length xs then Some (xs ! i) else None)"

text \<open>The value type of \<^verbatim>\<open>activeGames\<close>; \<open>timer\<close> is the handle \<^verbatim>\<open>setTimeout\<close> returned.\<close>

record Game =
  players :: "(string, Player) js_map"
  currentQuestion :: nat
  quiz :: Quiz
  answers :: "(string, int) js_map"
  timer :: "nat option"

text \<open>
  The three callbacks given to \<^verbatim>\<open>setTimeout\<close>, each with the variables its closure captures.
  A callback captures the game \<^emph>\<open>object\<close> (\<^verbatim>\<open>const game = activeGames.get(gameId)\<close>), not the map
  entry, so a game object is a cell of a heap and the closure holds its address:
  \<^item> \<open>QuestionTimeout gameId game question\<close>: the outer callback of \<^verbatim>\<open>startQuestionTimer\<close>;
  \<^item> \<open>RevealPause gameId game\<close>: the inner callback, 3000 ms after the reveal;
  \<^item> \<open>CountdownDone gameId game\<close>: the callback of \<^verbatim>\<open>startCountdown\<close>, after 5000 ms.
\<close>

datatype closure =
  QuestionTimeout string nat Question
| RevealPause string nat
| CountdownDone string nat

record Timeout =
  handle :: nat
  due :: nat
  callback :: closure

text \<open>
  The server: the heap of game objects (an object is never freed while a closure may hold
  it), \<^verbatim>\<open>activeGames\<close> from session code to game object, the timeouts that are pending, the
  next fresh timeout handle and the clock in milliseconds.
\<close>

record Server =
  heap :: "Game list"
  activeGames :: "(string, nat) js_map"
  pending :: "Timeout list"
  nextHandle :: nat
  now :: nat

definition init :: Server where
  "init = \<lparr>heap = [], activeGames = [], pending = [], nextHandle = 0, now = 0\<rparr>"

text \<open>
  Messages the server emits, with the destination: \<^verbatim>\<open>io.to(gameId).emit\<close> addresses the
  room of the session, \<^verbatim>\<open>socket.emit\<close> the calling connection only. Who is in a room
  (\<^verbatim>\<open>socket.join\<close>) is the transport's bookkeeping and is not part of the state; neither
  is the console log.
\<close>

datatype event =
  GameCreated string
| Error string
| PlayerJoined Player
| PlayerLeft string
| ScoreUpdate string int
| StartCountdownEv
| NewQuestion Question nat
| RevealAnswer int "string list" "Player list"
| GameOver "Player list"

datatype dest = Room string | Caller string

type_synonym emission = "dest \<times> event"

text \<open>The only exception a handler can raise: reading a property of \<^verbatim>\<open>undefined\<close>.\<close>

datatype error = TypeError

subsection \<open>Heap and timers\<close>

definition deref :: "Server \<Rightarrow> nat \<Rightarrow> Game option" where
  "deref s a = nth_opt (heap s) a"

text \<open>
  \<^verbatim>\<open>activeGames.get(gameId)\<close>: the game object and its address, or nothing. JavaScript has
  no dangling reference; the \<open>None\<close> that \<open>deref\<close> gives for an address that was never
  allocated is there to keep the model total, and \<open>reachable_no_dangling\<close> below shows
  that no state the server reaches ever takes it.
\<close>

definition get_game :: "Server \<Rightarrow> string \<Rightarrow> (nat \<times> Game) option" where
  "get_game s gameId =
     (case map_get (activeGames s) gameId of
        None \<Rightarrow> None
      | Some a \<Rightarrow> (case deref s a of None \<Rightarrow> None | Some game \<Rightarrow> Some (a, game)))"

definition put_game :: "nat \<Rightarrow> Game \<Rightarrow> Server \<Rightarrow> Server" where
  "put_game a game s = s\<lparr>heap := (heap s)[a := game]\<rparr>"

text \<open>
  \<^verbatim>\<open>setTimeout(callback, delay)\<close> returns a fresh handle and adds the callback to the
  pending ones, due \<open>delay\<close> milliseconds from now. The delay is kept as the source writes
  it (Node itself rounds a delay below 1 ms up to 1 ms).
\<close>

definition setTimeout :: "closure \<Rightarrow> nat \<Rightarrow> Server \<Rightarrow> nat \<times> Server" where
  "setTimeout cb delay s =
     (nextHandle s,
      s\<lparr>pending := pending s @ [\<lparr>handle = nextHandle s, due = now s + delay, callback = cb\<rparr>],
        nextHandle := nextHandle s + 1\<rparr>)"

text \<open>Clearing a handle that has fired or was cleared before changes nothing.\<close>

definition clearTimeout :: "nat \<Rightarrow> Server \<Rightarrow> Server" where
  "clearTimeout h s = s\<lparr>pending := filter (\<lambda>t. handle t \<noteq> h) (pending s)\<rparr>"

subsection \<open>\<^verbatim>\<open>startQuestionTimer\<close>\<close>

definition correctPlayers_of :: "(string, int) js_map \<Rightarrow> Question \<Rightarrow> string list" where
  "correctPlayers_of ans question =
     map fst (filter (\<lambda>(_, answer). answer = correctAnswer question) ans)"

definition startQuestionTimer :: "string \<Rightarrow> Server \<Rightarrow> Server" where
  "startQuestionTimer gameId s =
     (case get_game s gameId of
        None \<Rightarrow> s
      | Some (a, game) \<Rightarrow>
          (case nth_opt (questions (quiz game)) (currentQuestion game) of
             None \<Rightarrow> s
           | Some question \<Rightarrow>
               (let s1 = (case timer game of None \<Rightarrow> s | Some h \<Rightarrow> clearTimeout h s);
                    (h', s2) = setTimeout (QuestionTimeout gameId a question)
                                 (timeLimit question * 1000) s1
                in put_game a (game\<lparr>timer := Some h'\<rparr>) s2)))"

text \<open>
  Running a callback. The closure reads and writes the game object it captured; only the
  final \<^verbatim>\<open>startQuestionTimer(gameId)\<close> looks the code up in \<^verbatim>\<open>activeGames\<close> again.
\<close>

fun run_callback :: "closure \<Rightarrow> Server \<Rightarrow> Server \<times> emission list" where
  "run_callback (QuestionTimeout gameId a question) s =
     (case deref s a of
        None \<Rightarrow> (s, [])
      | Some game \<Rightarrow>
          (let correctPlayers = correctPlayers_of (answers game) question;
               ev = (Room gameId,
                     RevealAnswer (correctAnswer question) correctPlayers
                       (map_values (players game)));
               s1 = put_game a (game\<lparr>answers := []\<rparr>) s;
               (h, s2) = setTimeout (RevealPause gameId a) 3000 s1
           in (s2, [ev])))"
| "run_callback (RevealPause gameId a) s =
     (case deref s a of
        None \<Rightarrow> (s, [])
      | Some game0 \<Rightarrow>
          (let game = game0\<lparr>currentQuestion := currentQuestion game0 + 1\<rparr>;
               s1 = put_game a game s
           in if currentQuestion game \<ge> length (questions (quiz game))
              then (s1, [(Room gameId, GameOver (map_values (players game)))])
              else (let nextQuestion = questions (quiz game) ! currentQuestion game
                    in (startQuestionTimer gameId s1,
                        [(Room gameId, NewQuestion nextQuestion (timeLimit nextQuestion))]))))"
| "run_callback (CountdownDone gameId a) s =
     (case deref s a of
        None \<Rightarrow> (s, [])
      | Some game \<Rightarrow>
          (if currentQuestion game \<ge> length (questions (quiz game)) then (s, [])
           else (let question = questions (quiz game) ! currentQuestion game
                 in (startQuestionTimer gameId s,
                     [(Room gameId, NewQuestion question (timeLimit question))]))))"

subsection \<open>The socket handlers\<close>

text \<open>
  \<open>code\<close> is the string \<^verbatim>\<open>Math.random().toString(36).substring(2, 8)\<close> yields for this call;
  the handler stores the new session under it without looking at \<^verbatim>\<open>activeGames\<close> first.
\<close>

definition createGame :: "string \<Rightarrow> Quiz \<Rightarrow> string \<Rightarrow> Server \<Rightarrow> Server \<times> emission list" where
  "createGame socket qz code s =
     (let gameId = code;
          a = length (heap s);
          game = \<lparr>players = [], currentQuestion = 0, quiz = qz, answers = [], timer = None\<rparr>
      in (s\<lparr>heap := heap s @ [game], activeGames := map_set gameId a (activeGames s)\<rparr>,
          [(Caller socket, GameCreated gameId)]))"

definition joinGame :: "string \<Rightarrow> string \<Rightarrow> string \<Rightarrow> Server \<Rightarrow> Server \<times> emission list" where
  "joinGame socket gameId uname s =
     (case get_game s gameId of
        None \<Rightarrow> (s, [(Caller socket, Error ''Game not found'')])
      | Some (a, game) \<Rightarrow>
          (let player = \<lparr>playerId = socket, username = uname, score = 0\<rparr>
           in (put_game a (game\<lparr>players := map_set socket player (players game)\<rparr>) s,
               [(Room gameId, PlayerJoined \<lparr>playerId = socket, username = uname, score = 0\<rparr>)])))"

text \<open>
  \<^verbatim>\<open>submitAnswer\<close> reads \<^verbatim>\<open>currentQuestion.correctAnswer\<close> with no check that the question
  exists: past the last question this raises, after the answer was recorded.
\<close>

definition submitAnswer ::
  "string \<Rightarrow> string \<Rightarrow> int \<Rightarrow> Server \<Rightarrow> error + Server \<times> emission list" where
  "submitAnswer socket gameId answerIndex s =
     (case get_game s gameId of
        None \<Rightarrow> Inr (s, [])
      | Some (a, game) \<Rightarrow>
          (case map_get (players game) socket of
             None \<Rightarrow> Inr (s, [])
           | Some player \<Rightarrow>
               if map_has (answers game) socket then Inr (s, [])
               else
                 (let game1 = game\<lparr>answers := map_set socket answerIndex (answers game)\<rparr>
                  in case nth_opt (questions (quiz game1)) (currentQuestion game1) of
                       None \<Rightarrow> Inl TypeError
                     | Some currentQ \<Rightarrow>
                         if answerIndex = correctAnswer currentQ
                         then (let player' = player\<lparr>score := score player + 1000\<rparr>;
                                   game2 = game1\<lparr>players := map_set socket player' (players game1)\<rparr>
                               in Inr (put_game a game2 s,
                                       [(Room gameId, ScoreUpdate socket (score player'))]))
                         else Inr (put_game a game1 s, []))))"

definition nextQuestion :: "string \<Rightarrow> Server \<Rightarrow> Server \<times> emission list" where
  "nextQuestion gameId s =
     (case get_game s gameId of
        None \<Rightarrow> (s, [])
      | Some (a, game) \<Rightarrow>
          (let (game1, reveal) =
                 (if currentQuestion game < length (questions (quiz game))
                  then (let currentQ = questions (quiz game) ! currentQuestion game;
                            correctPlayers = correctPlayers_of (answers game) currentQ
                        in (game\<lparr>answers := []\<rparr>,
                            [(Room gameId,
                              RevealAnswer (correctAnswer currentQ) correctPlayers
                                (map_values (players game)))]))
                  else (game, []));
               game2 = game1\<lparr>currentQuestion := currentQuestion game1 + 1\<rparr>;
               s1 = put_game a game2 s
           in if currentQuestion game2 \<ge> length (questions (quiz game2))
              then (s1, reveal @ [(Room gameId, GameOver (map_values (players game2)))])
              else (let question = questions (quiz game2) ! currentQuestion game2
                    in (startQuestionTimer gameId s1,
                        reveal @ [(Room gameId, NewQuestion question (timeLimit question))]))))"

definition startCountdown :: "string \<Rightarrow> Server \<Rightarrow> Server \<times> emission list" where
  "startCountdown gameId s =
     (case get_game s gameId of
        None \<Rightarrow> (s, [])
      | Some (a, game) \<Rightarrow>
          (let (h, s1) = setTimeout (CountdownDone gameId a) 5000 s
           in (s1, [(Room gameId, StartCountdownEv)])))"

text \<open>\<^verbatim>\<open>activeGames.forEach\<close>, in the order of the map.\<close>

fun disconnect_each :: "string \<Rightarrow> (string \<times> nat) list \<Rightarrow> Server \<Rightarrow> Server \<times> emission list" where
  "disconnect_each socket [] s = (s, [])"
| "disconnect_each socket ((gameId, a) # rest) s =
     (case deref s a of
        None \<Rightarrow> disconnect_each socket rest s
      | Some game \<Rightarrow>
          if map_has (players game) socket
          then (let s1 = put_game a (game\<lparr>players := map_delete socket (players game)\<rparr>) s;
                    (s2, evs) = disconnect_each socket rest s1
                in (s2, (Room gameId, PlayerLeft socket) # evs))
          else disconnect_each socket rest s)"

definition disconnect :: "string \<Rightarrow> Server \<Rightarrow> Server \<times> emission list" where
  "disconnect socket s = disconnect_each socket (activeGames s) s"

subsection \<open>The event loop\<close>

text \<open>
  What can happen to the server: a connection sends a message, time passes, or the
  timeout that is due first fires (of two that are due at the same time, the one that
  was set first). The clock never passes a pending timeout without firing it, so every
  list of inputs is a schedule the event loop can produce. A handler or callback runs
  to its end before the next input: the event loop is single-threaded.
\<close>

datatype command =
  CreateGame Quiz string
| JoinGame string string
| SubmitAnswer string int
| NextQuestion string
| StartCountdown string
| Disconnect

datatype input = Command string command | Elapse nat | TimerFires

fun next_due :: "Timeout list \<Rightarrow> Timeout option" where
  "next_due [] = None"
| "next_due (t # ts) =
     (case next_due ts of
        None \<Rightarrow> Some t
      | Some u \<Rightarrow> if due u < due t then Some u else Some t)"

definition timer_fires :: "Server \<Rightarrow> Server \<times> emission list" where
  "timer_fires s =
     (case next_due (pending s) of
        None \<Rightarrow> (s, [])
      | Some t \<Rightarrow>
          run_callback (callback t)
            (s\<lparr>pending := filter (\<lambda>u. handle u \<noteq> handle t) (pending s),
               now := max (now s) (due t)\<rparr>))"

definition elapse :: "nat \<Rightarrow> Server \<Rightarrow> Server" where
  "elapse d s =
     (case next_due (pending s) of
        None \<Rightarrow> s\<lparr>now := now s + d\<rparr>
      | Some t \<Rightarrow> s\<lparr>now := min (now s + d) (max (now s) (due t))\<rparr>)"

fun on_command :: "string \<Rightarrow> command \<Rightarrow> Server \<Rightarrow> error + Server \<times> emission list" where
  "on_command socket (CreateGame qz code) s = Inr (createGame socket qz code s)"
| "on_command socket (JoinGame gameId uname) s = Inr (joinGame socket gameId uname s)"
| "on_command socket (SubmitAnswer gameId answerIndex) s = submitAnswer socket gameId answerIndex s"
| "on_command socket (NextQuestion gameId) s = Inr (nextQuestion gameId s)"
| "on_command socket (StartCountdown gameId) s = Inr (startCountdown gameId s)"
| "on_command socket Disconnect s = Inr (disconnect socket s)"

fun step :: "input \<Rightarrow> Server \<Rightarrow> error + Server \<times> emission list" where
  "step (Command socket c) s = on_command socket c s"
| "step (Elapse d) s = Inr (elapse d s, [])"
| "step TimerFires s = Inr (timer_fires s)"

text \<open>
  A run stops at the first uncaught exception (the process dies); the messages emitted
  before it have been sent.
\<close>

fun run :: "input list \<Rightarrow> Server \<Rightarrow> (error + Server) \<times> emission list" where
  "run [] s = (Inr s, [])"
| "run (i # is) s =
     (case step i s of
        Inl e \<Rightarrow> (Inl e, [])
      | Inr (s', evs) \<Rightarrow> (let (r, evs') = run is s' in (r, evs @ evs')))"

subsection \<open>Observing a session\<close>

text \<open>The score recorded under a player id in the session a code resolves to.\<close>

definition score_of :: "Server \<Rightarrow> string \<Rightarrow> string \<Rightarrow> int option" where
  "score_of s gameId p =
     (case get_game s gameId of
        None \<Rightarrow> None
      | Some (a, game) \<Rightarrow> map_option score (map_get (players game) p))"

text \<open>The state a list of inputs leaves the fresh server in, if the process survived it.\<close>

definition state_after :: "input list \<Rightarrow> Server option" where
  "state_after tr = (case fst (run tr init) of Inl e \<Rightarrow> None | Inr s \<Rightarrow> Some s)"

definition session_after :: "input list \<Rightarrow> string \<Rightarrow> Game option" where
  "session_after tr gameId =
     (case state_after tr of
        None \<Rightarrow> None
      | Some s \<Rightarrow> map_option snd (get_game s gameId))"

definition score_after :: "input list \<Rightarrow> string \<Rightarrow> string \<Rightarrow> int option" where
  "score_after tr gameId p =
     (case state_after tr of None \<Rightarrow> None | Some s \<Rightarrow> score_of s gameId p)"

fun is_reveal :: "emission \<Rightarrow> bool" where
  "is_reveal (d, RevealAnswer c ps roster) = True"
| "is_reveal (d, e) = False"

text \<open>The players an emitted message lists, and the player a score update credits.\<close>

fun event_players :: "event \<Rightarrow> Player list" where
  "event_players (PlayerJoined p) = [p]"
| "event_players (RevealAnswer c ps roster) = roster"
| "event_players (GameOver roster) = roster"
| "event_players e = []"

definition in_roster :: "string \<Rightarrow> emission \<Rightarrow> bool" where
  "in_roster h em = (h \<in> set (map playerId (event_players (snd em))))"

fun credits :: "string \<Rightarrow> emission \<Rightarrow> bool" where
  "credits h (d, ScoreUpdate p v) = (p = h)"
| "credits h (d, e) = False"

text \<open>
  The player map as the inputs alone determine it: the connections that sent
  \<^verbatim>\<open>joinGame\<close> for the session since it was created and have not disconnected since.
  \<open>None\<close> while no session has the code.
\<close>

fun joined_step :: "string \<Rightarrow> string set option \<Rightarrow> input \<Rightarrow> string set option" where
  "joined_step gameId m (Command socket (CreateGame qz code)) =
     (if code = gameId then Some {} else m)"
| "joined_step gameId m (Command socket (JoinGame g uname)) =
     (if g = gameId then map_option (insert socket) m else m)"
| "joined_step gameId m (Command socket Disconnect) = map_option (\<lambda>S. S - {socket}) m"
| "joined_step gameId m i = m"

definition joined_and_not_left :: "string \<Rightarrow> input list \<Rightarrow> string set option" where
  "joined_and_not_left gameId tr = foldl (joined_step gameId) None tr"

definition player_ids :: "Server \<Rightarrow> string \<Rightarrow> string set option" where
  "player_ids s gameId = map_option (\<lambda>(a, game). set (map_keys (players game))) (get_game s gameId)"

text \<open>The player maps of all game objects, by address.\<close>

definition rosters :: "Server \<Rightarrow> (string, Player) js_map list" where
  "rosters s = map players (heap s)"

text \<open>A connection that is in no player map, neither as a key nor as the id of an entry.\<close>

definition no_entry :: "string \<Rightarrow> (string, Player) js_map \<Rightarrow> bool" where
  "no_entry h r \<longleftrightarrow> h \<notin> set (map_keys r) \<and> h \<notin> set (map playerId (map_values r))"

definition absent :: "string \<Rightarrow> Server \<Rightarrow> bool" where
  "absent h s \<longleftrightarrow> (\<forall>r \<in> set (rosters s). no_entry h r)"

text \<open>
  What holds of every state the server reaches: a code resolves to an allocated game
  object, and no two codes to the same one.
\<close>

definition wf :: "Server \<Rightarrow> bool" where
  "wf s \<longleftrightarrow>
     (\<forall>g a. map_of (activeGames s) g = Some a \<longrightarrow> a < length (heap s)) \<and>
     (\<forall>g g' a. map_of (activeGames s) g = Some a \<and> map_of (activeGames s) g' = Some a \<longrightarrow> g = g')"

text \<open>The game object a pending callback holds is an allocated one.\<close>

fun closure_game :: "closure \<Rightarrow> nat" where
  "closure_game (QuestionTimeout gameId a question) = a"
| "closure_game (RevealPause gameId a) = a"
| "closure_game (CountdownDone gameId a) = a"

definition closures_ok :: "Server \<Rightarrow> bool" where
  "closures_ok s \<longleftrightarrow> (\<forall>t \<in> set (pending s). closure_game (callback t) < length (heap s))"

text \<open>
  The code a pending callback emits to. A game object is only ever reachable under the
  code it was created for.
\<close>

fun closure_code :: "closure \<Rightarrow> string" where
  "closure_code (QuestionTimeout gameId a question) = gameId"
| "closure_code (RevealPause gameId a) = gameId"
| "closure_code (CountdownDone gameId a) = gameId"

definition owners_ok :: "Server \<Rightarrow> bool" where
  "owners_ok s \<longleftrightarrow>
     (\<forall>t \<in> set (pending s). \<forall>g.
        map_get (activeGames s) g = Some (closure_game (callback t)) \<longrightarrow> g = closure_code (callback t))"





text \<open>The callbacks that are pending after a list of inputs, oldest first.\<close>

definition pending_after :: "input list \<Rightarrow> closure list" where
  "pending_after tr = (case state_after tr of None \<Rightarrow> [] | Some s \<Rightarrow> map callback (pending s))"

subsection \<open>Example sessions\<close>

definition ex_q1 :: Question where
  "ex_q1 = \<lparr>questionId = ''1'', questionText = ''2+2'', options = [''1'', ''2'', ''3'', ''4''],
            correctAnswer = 3, timeLimit = 5\<rparr>"

definition ex_q2 :: Question where
  "ex_q2 = \<lparr>questionId = ''2'', questionText = ''1+1'', options = [''1'', ''2'', ''3'', ''4''],
            correctAnswer = 1, timeLimit = 10\<rparr>"

definition ex_quiz1 :: Quiz where
  "ex_quiz1 = \<lparr>quizId = ''a'', title = ''one'', questions = [ex_q1]\<rparr>"

definition ex_quiz2 :: Quiz where
  "ex_quiz2 = \<lparr>quizId = ''b'', title = ''two'', questions = [ex_q1, ex_q2]\<rparr>"

text \<open>A player in the lobby of a one-question and of a two-question game.\<close>

definition ex_lobby1 :: "input list" where
  "ex_lobby1 = [Command ''H'' (CreateGame ex_quiz1 ''abc''), Command ''P'' (JoinGame ''abc'' ''pat'')]"

definition ex_lobby2 :: "input list" where
  "ex_lobby2 = [Command ''H'' (CreateGame ex_quiz2 ''abc''), Command ''P'' (JoinGame ''abc'' ''pat'')]"

text \<open>The host starts the game and the five seconds of countdown pass: question 1 is shown.\<close>

definition ex_started1 :: "input list" where
  "ex_started1 = ex_lobby1 @ [Command ''H'' (StartCountdown ''abc''), TimerFires]"

definition ex_started2 :: "input list" where
  "ex_started2 = ex_lobby2 @ [Command ''H'' (StartCountdown ''abc''), TimerFires]"

text \<open>The two-question game with question 1 on show, before and after the player answers it right.\<close>

definition ex_game_active2 :: Game where
  "ex_game_active2 =
     \<lparr>players = [(''P'', \<lparr>playerId = ''P'', username = ''pat'', score = 0\<rparr>)],
      currentQuestion = 0, quiz = ex_quiz2, answers = [], timer = Some 1\<rparr>"

definition ex_active2 :: Server where
  "ex_active2 =
     \<lparr>heap = [ex_game_active2], activeGames = [(''abc'', 0)],
      pending = [\<lparr>handle = 1, due = 10000, callback = QuestionTimeout ''abc'' 0 ex_q1\<rparr>],
      nextHandle = 2, now = 5000\<rparr>"

definition ex_answered2 :: "input list" where
  "ex_answered2 = ex_started2 @ [Elapse 1000, Command ''P'' (SubmitAnswer ''abc'' 3)]"

definition ex_game_scored2 :: Game where
  "ex_game_scored2 =
     \<lparr>players = [(''P'', \<lparr>playerId = ''P'', username = ''pat'', score = 1000\<rparr>)],
      currentQuestion = 0, quiz = ex_quiz2, answers = [(''P'', 3)], timer = Some 1\<rparr>"

definition ex_scored2 :: Server where
  "ex_scored2 =
     \<lparr>heap = [ex_game_scored2], activeGames = [(''abc'', 0)],
      pending = [\<lparr>handle = 1, due = 10000, callback = QuestionTimeout ''abc'' 0 ex_q1\<rparr>],
      nextHandle = 2, now = 6000\<rparr>"

text \<open>The one-question game after it ran to its end on its own timers.\<close>

definition ex_finished1 :: "input list" where
  "ex_finished1 = ex_started1 @ [TimerFires, TimerFires]"

definition ex_over1 :: Server where
  "ex_over1 =
     \<lparr>heap = [\<lparr>players = [(''P'', \<lparr>playerId = ''P'', username = ''pat'', score = 0\<rparr>)],
               currentQuestion = 1, quiz = ex_quiz1, answers = [], timer = Some 1\<rparr>],
      activeGames = [(''abc'', 0)], pending = [], nextHandle = 3, now = 13000\<rparr>"

text \<open>Two sessions side by side.\<close>

definition ex_two_sessions :: "input list" where
  "ex_two_sessions = ex_lobby1 @ [Command ''G'' (CreateGame ex_quiz2 ''xyz'')]"

text \<open>A quiz whose first question stays on show for ten seconds.\<close>

definition ex_quiz3 :: Quiz where
  "ex_quiz3 = \<lparr>quizId = ''c'', title = ''slow first'', questions = [ex_q2, ex_q1]\<rparr>"

definition ex_started3 :: "input list" where
  "ex_started3 =
     [Command ''H'' (CreateGame ex_quiz3 ''abc''), Command ''P'' (JoinGame ''abc'' ''pat''),
      Command ''H'' (StartCountdown ''abc''), TimerFires,
      Elapse 1000, Command ''P'' (SubmitAnswer ''abc'' 1)]"

text \<open>
  The two-question game in its reveal pause, and the slow game after a second
  \<^verbatim>\<open>startCountdown\<close> sent while its first question is on show.
\<close>

definition ex_game_paused2 :: Game where
  "ex_game_paused2 =
     \<lparr>players = [(''P'', \<lparr>playerId = ''P'', username = ''pat'', score = 1000\<rparr>)],
      currentQuestion = 0, quiz = ex_quiz2, answers = [], timer = Some 1\<rparr>"

definition ex_paused2 :: Server where
  "ex_paused2 =
     \<lparr>heap = [ex_game_paused2], activeGames = [(''abc'', 0)],
      pending = [\<lparr>handle = 2, due = 13000, callback = RevealPause ''abc'' 0\<rparr>],
      nextHandle = 3, now = 10000\<rparr>"

definition ex_game_answered3 :: Game where
  "ex_game_answered3 =
     \<lparr>players = [(''P'', \<lparr>playerId = ''P'', username = ''pat'', score = 1000\<rparr>)],
      currentQuestion = 0, quiz = ex_quiz3, answers = [(''P'', 1)], timer = Some 1\<rparr>"

definition ex_restarting3 :: Server where
  "ex_restarting3 =
     \<lparr>heap = [ex_game_answered3], activeGames = [(''abc'', 0)],
      pending = [\<lparr>handle = 1, due = 15000, callback = QuestionTimeout ''abc'' 0 ex_q2\<rparr>,
                 \<lparr>handle = 2, due = 11000, callback = CountdownDone ''abc'' 0\<rparr>],
      nextHandle = 3, now = 6000\<rparr>"

section \<open>Properties of the engine\<close>

subsection \<open>Unfolding the model on concrete inputs\<close>

lemmas ex_defs = ex_q1_def ex_q2_def ex_quiz1_def ex_quiz2_def ex_lobby1_def ex_lobby2_def
  ex_started1_def ex_started2_def ex_game_active2_def ex_active2_def ex_answered2_def
  ex_game_scored2_def ex_scored2_def ex_finished1_def ex_over1_def ex_two_sessions_def
  ex_quiz3_def ex_started3_def ex_game_paused2_def ex_paused2_def ex_game_answered3_def
  ex_restarting3_def

lemmas eval_defs = init_def createGame_def joinGame_def submitAnswer_def nextQuestion_def
  startCountdown_def disconnect_def timer_fires_def elapse_def startQuestionTimer_def get_game_def
  put_game_def deref_def setTimeout_def clearTimeout_def nth_opt_def map_get_def map_has_def
  map_set_def map_delete_def map_values_def map_keys_def correctPlayers_of_def Let_def
  state_after_def session_after_def score_of_def score_after_def pending_after_def

text \<open>The example states are the ones the example inputs lead to.\<close>

lemma ex_active2_reached: "state_after ex_started2 = Some ex_active2"
  by (simp add: ex_defs eval_defs)


subsection \<open>Reading and writing game objects\<close>

lemma get_game_SomeD:
  assumes "get_game s gameId = Some (a, game)"
  shows "map_of (activeGames s) gameId = Some a" and "a < length (heap s)" and "heap s ! a = game"
  using assms
  by (auto simp: get_game_def map_get_def deref_def nth_opt_def split: option.splits if_splits)

lemma get_game_put_game_same:
  assumes "get_game s gameId = Some (a, game)"
  shows "get_game (put_game a game' s) gameId = Some (a, game')"
  using get_game_SomeD[OF assms]
  by (simp add: get_game_def put_game_def map_get_def deref_def nth_opt_def)

lemma map_of_map_set: "map_of (map_set k v m) = (map_of m)(k \<mapsto> v)"
  by (simp add: map_set_def update_conv')

lemma map_get_map_set: "map_get (map_set k v m) k' = (if k' = k then Some v else map_get m k')"
  by (simp add: map_get_def map_of_map_set)

lemma map_keys_map_set_present:
  "map_get m k = Some old \<Longrightarrow> map_keys (map_set k v m) = map_keys m"
  by (auto simp: map_keys_def map_set_def map_get_def update_keys dest: map_of_SomeD intro: rev_image_eqI)

subsection \<open>Joining twice\<close>

text \<open>
  Claim C9. A \<^verbatim>\<open>joinGame\<close> for an existing session from a connection whose id is already in
  the player map is never rejected: the entry is overwritten in place by a fresh player
  with the new username and score 0 (the accumulated score is lost), every other entry is
  kept, and \<^verbatim>\<open>playerJoined\<close> is broadcast to the room again.
\<close>

theorem joinGame_rejoin_resets_score:
  assumes "get_game s gameId = Some (a, game)"
      and "map_get (players game) socket = Some old"
  shows "snd (joinGame socket gameId uname s) =
           [(Room gameId, PlayerJoined \<lparr>playerId = socket, username = uname, score = 0\<rparr>)] \<and>
         (\<exists>game'. get_game (fst (joinGame socket gameId uname s)) gameId = Some (a, game') \<and>
            map_get (players game') socket = Some \<lparr>playerId = socket, username = uname, score = 0\<rparr> \<and>
            map_keys (players game') = map_keys (players game) \<and>
            (\<forall>k. k \<noteq> socket \<longrightarrow> map_get (players game') k = map_get (players game) k)) \<and>
         score_of (fst (joinGame socket gameId uname s)) gameId socket = Some 0"
  using assms
  by (simp add: joinGame_def get_game_put_game_same map_get_map_set map_keys_map_set_present score_of_def)

theorem joinGame_rejoin_resets_score_witness:
  "get_game ex_scored2 ''abc'' = Some (0, ex_game_scored2) \<and>
   map_get (players ex_game_scored2) ''P'' = Some \<lparr>playerId = ''P'', username = ''pat'', score = 1000\<rparr> \<and>
   snd (joinGame ''P'' ''abc'' ''patricia'' ex_scored2) =
     [(Room ''abc'', PlayerJoined \<lparr>playerId = ''P'', username = ''patricia'', score = 0\<rparr>)] \<and>
   score_of (fst (joinGame ''P'' ''abc'' ''patricia'' ex_scored2)) ''abc'' ''P'' = Some 0"
  using joinGame_rejoin_resets_score [of ex_scored2 "''abc''" 0 ex_game_scored2 "''P''"
      "\<lparr>playerId = ''P'', username = ''pat'', score = 1000\<rparr>" "''patricia''"]
  by (simp add: ex_defs get_game_def map_get_def deref_def nth_opt_def)

subsection \<open>The handler and the callbacks of an advance\<close>


lemma get_game_deref: "get_game s gameId = Some (a, game) \<Longrightarrow> deref s a = Some game"
  by (auto simp: get_game_def split: option.splits)

lemma put_game_fields [simp]:
  "activeGames (put_game a game s) = activeGames s"
  "pending (put_game a game s) = pending s"
  "nextHandle (put_game a game s) = nextHandle s"
  "now (put_game a game s) = now s"
  "length (heap (put_game a game s)) = length (heap s)"
  by (simp_all add: put_game_def)

lemma startQuestionTimer_frame:
  "activeGames (startQuestionTimer gameId s) = activeGames s"
  "length (heap (startQuestionTimer gameId s)) = length (heap s)"
  "now (startQuestionTimer gameId s) = now s"
  by (auto simp: startQuestionTimer_def setTimeout_def clearTimeout_def Let_def
           split: option.splits prod.splits)

lemma startQuestionTimer_deref:
  "deref (startQuestionTimer gameId s) b = Some g' \<Longrightarrow>
     \<exists>g. deref s b = Some g \<and> players g' = players g \<and> answers g' = answers g \<and>
         currentQuestion g' = currentQuestion g \<and> quiz g' = quiz g"
  by (auto simp: startQuestionTimer_def setTimeout_def clearTimeout_def Let_def deref_def
                 put_game_def nth_opt_def nth_list_update get_game_def map_get_def
           split: option.splits prod.splits if_splits)






lemma startQuestionTimer_schedules:
  assumes g: "get_game s gameId = Some (a, game)"
      and lt: "currentQuestion game < length (questions (quiz game))"
  shows "callback (last (pending (startQuestionTimer gameId s))) =
           QuestionTimeout gameId a (questions (quiz game) ! currentQuestion game)"
  using g lt
  by (simp add: startQuestionTimer_def nth_opt_def setTimeout_def clearTimeout_def Let_def
           split: option.splits)

subsection \<open>Submitting an answer\<close>






text \<open>
  Claim C4. Once a player's answer for the round is recorded, any further
  \<^verbatim>\<open>submitAnswer\<close> from that player is ignored for as long as the record holds the
  answer: the state (recorded answer, scores, everything else) is unchanged and nothing
  is emitted. In particular a second submission right after the first is ignored.
\<close>

theorem first_answer_is_final:
  assumes "get_game s gameId = Some (a, game)"
      and "map_get (players game) socket = Some player"
      and "\<not> map_has (answers game) socket"
      and "submitAnswer socket gameId first s = Inr (s1, evs)"
  shows "(\<exists>game1. get_game s1 gameId = Some (a, game1) \<and>
                  map_get (answers game1) socket = Some first) \<and>
         submitAnswer socket gameId again s1 = Inr (s1, []) \<and>
         (\<forall>s2 a2 game2 recorded.
            get_game s2 gameId = Some (a2, game2) \<and> map_get (answers game2) socket = Some recorded
            \<longrightarrow> submitAnswer socket gameId again s2 = Inr (s2, []))"
proof -
  have later: "submitAnswer socket gameId again s2 = Inr (s2, [])"
    if "get_game s2 gameId = Some (a2, game2)" "map_get (answers game2) socket = Some recorded"
    for s2 a2 game2 recorded
    using that by (simp add: submitAnswer_def map_has_def map_get_def split: option.splits)
  have rec: "\<exists>game1. get_game s1 gameId = Some (a, game1) \<and>
                  map_get (answers game1) socket = Some first"
    using assms
    by (auto simp: submitAnswer_def Let_def get_game_put_game_same map_get_map_set
             split: option.splits if_splits)
  then obtain game1 where g1: "get_game s1 gameId = Some (a, game1)"
      "map_get (answers game1) socket = Some first" by blast
  from rec later[OF g1] later show ?thesis by blast
qed

theorem first_answer_is_final_witness:
  "get_game ex_active2 ''abc'' = Some (0, ex_game_active2) \<and>
   map_get (players ex_game_active2) ''P'' = Some \<lparr>playerId = ''P'', username = ''pat'', score = 0\<rparr> \<and>
   \<not> map_has (answers ex_game_active2) ''P'' \<and>
   submitAnswer ''P'' ''abc'' 2 ex_active2 =
     Inr (put_game 0 (ex_game_active2\<lparr>answers := [(''P'', 2)]\<rparr>) ex_active2, []) \<and>
   submitAnswer ''P'' ''abc'' 3 (put_game 0 (ex_game_active2\<lparr>answers := [(''P'', 2)]\<rparr>) ex_active2) =
     Inr (put_game 0 (ex_game_active2\<lparr>answers := [(''P'', 2)]\<rparr>) ex_active2, [])"
proof -
  have h1: "get_game ex_active2 ''abc'' = Some (0, ex_game_active2)"
    by (simp add: ex_defs get_game_def map_get_def deref_def nth_opt_def)
  have h2: "map_get (players ex_game_active2) ''P'' = Some \<lparr>playerId = ''P'', username = ''pat'', score = 0\<rparr>"
    by (simp add: ex_defs map_get_def)
  have h3: "\<not> map_has (answers ex_game_active2) ''P''"
    by (simp add: ex_defs map_has_def)
  have h4: "submitAnswer ''P'' ''abc'' 2 ex_active2 =
     Inr (put_game 0 (ex_game_active2\<lparr>answers := [(''P'', 2)]\<rparr>) ex_active2, [])"
    by (simp add: ex_defs eval_defs)
  from first_answer_is_final [OF h1 h2 h3 h4, of 3] h1 h2 h3 h4 show ?thesis by blast
qed

subsection \<open>What a step does to the player maps\<close>

lemma rosters_length: "length (rosters s) = length (heap s)"
  by (simp add: rosters_def)

lemma rosters_put_game:
  "rosters (put_game a game s) = (rosters s)[a := players game]"
  by (simp add: rosters_def put_game_def map_update)

lemma rosters_put_game_same:
  "deref s a = Some game \<Longrightarrow> players game' = players game \<Longrightarrow> rosters (put_game a game' s) = rosters s"
  by (auto simp: put_game_def deref_def nth_opt_def rosters_def map_update list_update_same_conv
           split: if_splits)

lemma deref_roster: "deref s a = Some game \<Longrightarrow> a < length (rosters s) \<and> rosters s ! a = players game"
  by (auto simp: deref_def nth_opt_def rosters_def split: if_splits)

lemma deref_in_rosters: "deref s a = Some game \<Longrightarrow> players game \<in> set (rosters s)"
  by (auto simp: deref_def nth_opt_def rosters_def split: if_splits)

lemma startQuestionTimer_rosters [simp]:
  "rosters (startQuestionTimer gameId s) = rosters s"
proof (cases "get_game s gameId")
  case None
  then show ?thesis by (simp add: startQuestionTimer_def)
next
  case (Some ag)
  obtain a game where ag: "ag = (a, game)" by (cases ag)
  note g = Some[unfolded ag]
  have "a < length (heap s)" "heap s ! a = game" using get_game_SomeD[OF g] by auto
  then show ?thesis using g
    by (auto simp: startQuestionTimer_def Let_def setTimeout_def clearTimeout_def rosters_def
                   put_game_def map_update list_update_same_conv
             split: option.splits)
qed

lemma startQuestionTimer_activeGames [simp]:
  "activeGames (startQuestionTimer gameId s) = activeGames s"
  by (rule startQuestionTimer_frame)

text \<open>
  Steps that leave every player map as it is. The messages they emit list either nobody
  or the values of one of the player maps, and credit nobody.
\<close>

lemma nextQuestion_quiet:
  "rosters (fst (nextQuestion gameId s)) = rosters s"
  "activeGames (fst (nextQuestion gameId s)) = activeGames s"
  "em \<in> set (snd (nextQuestion gameId s)) \<Longrightarrow>
     (event_players (snd em) = [] \<or> event_players (snd em) \<in> set (map map_values (rosters s))) \<and>
     \<not> credits h em"
proof -
  show "rosters (fst (nextQuestion gameId s)) = rosters s"
    by (auto simp: nextQuestion_def Let_def rosters_put_game_same dest!: get_game_deref
             split: option.splits prod.splits if_splits)
  show "activeGames (fst (nextQuestion gameId s)) = activeGames s"
    by (auto simp: nextQuestion_def Let_def split: option.splits prod.splits if_splits)
  assume "em \<in> set (snd (nextQuestion gameId s))"
  then show "(event_players (snd em) = [] \<or> event_players (snd em) \<in> set (map map_values (rosters s))) \<and>
     \<not> credits h em"
    by (auto simp: nextQuestion_def Let_def dest!: get_game_deref deref_in_rosters
             split: option.splits prod.splits if_splits)
qed

lemma rosters_update_other [simp]:
  "rosters (s\<lparr>pending := ps\<rparr>) = rosters s"
  "rosters (s\<lparr>now := t\<rparr>) = rosters s"
  "rosters (s\<lparr>nextHandle := n\<rparr>) = rosters s"
  "rosters (s\<lparr>activeGames := m\<rparr>) = rosters s"
  by (simp_all add: rosters_def)

lemma deref_update_other [simp]:
  "deref (s\<lparr>pending := ps\<rparr>) a = deref s a"
  "deref (s\<lparr>now := t\<rparr>) a = deref s a"
  "deref (s\<lparr>nextHandle := n\<rparr>) a = deref s a"
  by (simp_all add: deref_def)

lemma run_callback_quiet:
  "rosters (fst (run_callback cb s)) = rosters s"
  "activeGames (fst (run_callback cb s)) = activeGames s"
  "em \<in> set (snd (run_callback cb s)) \<Longrightarrow>
     (event_players (snd em) = [] \<or> event_players (snd em) \<in> set (map map_values (rosters s))) \<and>
     \<not> credits h em"
proof -
  show "rosters (fst (run_callback cb s)) = rosters s"
    by (cases cb)
       (auto simp: Let_def setTimeout_def rosters_put_game_same
             split: option.splits prod.splits if_splits)
  show "activeGames (fst (run_callback cb s)) = activeGames s"
    by (cases cb)
       (auto simp: Let_def setTimeout_def split: option.splits prod.splits if_splits)
  assume "em \<in> set (snd (run_callback cb s))"
  then show "(event_players (snd em) = [] \<or> event_players (snd em) \<in> set (map map_values (rosters s))) \<and>
     \<not> credits h em"
    by (cases cb)
       (auto simp: Let_def setTimeout_def dest!: deref_in_rosters
             split: option.splits prod.splits if_splits)
qed

lemma timer_fires_quiet:
  "rosters (fst (timer_fires s)) = rosters s"
  "activeGames (fst (timer_fires s)) = activeGames s"
  "em \<in> set (snd (timer_fires s)) \<Longrightarrow>
     (event_players (snd em) = [] \<or> event_players (snd em) \<in> set (map map_values (rosters s))) \<and>
     \<not> credits h em"
proof -
  show "rosters (fst (timer_fires s)) = rosters s"
    by (simp add: timer_fires_def run_callback_quiet(1) split: option.splits)
  show "activeGames (fst (timer_fires s)) = activeGames s"
    by (simp add: timer_fires_def run_callback_quiet(2) split: option.splits)
  assume em: "em \<in> set (snd (timer_fires s))"
  show "(event_players (snd em) = [] \<or> event_players (snd em) \<in> set (map map_values (rosters s))) \<and>
     \<not> credits h em"
  proof (cases "next_due (pending s)")
    case None
    with em show ?thesis by (simp add: timer_fires_def)
  next
    case (Some t)
    with em have "em \<in> set (snd (run_callback (callback t)
            (s\<lparr>pending := filter (\<lambda>u. handle u \<noteq> handle t) (pending s),
               now := max (now s) (due t)\<rparr>)))"
      by (simp add: timer_fires_def)
    from run_callback_quiet(3)[OF this, of h] show ?thesis by simp
  qed
qed

lemma startCountdown_quiet:
  "rosters (fst (startCountdown gameId s)) = rosters s"
  "activeGames (fst (startCountdown gameId s)) = activeGames s"
  "em \<in> set (snd (startCountdown gameId s)) \<Longrightarrow> event_players (snd em) = [] \<and> \<not> credits h em"
  by (auto simp: startCountdown_def setTimeout_def Let_def split: option.splits)

lemma elapse_quiet:
  "rosters (elapse d s) = rosters s"
  "activeGames (elapse d s) = activeGames s"
  by (auto simp: elapse_def split: option.splits)

lemma createGame_effect:
  "rosters (fst (createGame socket qz code s)) = rosters s @ [[]]"
  "activeGames (fst (createGame socket qz code s)) = map_set code (length (rosters s)) (activeGames s)"
  "snd (createGame socket qz code s) = [(Caller socket, GameCreated code)]"
  by (simp_all add: createGame_def Let_def rosters_def)

lemma joinGame_effect:
  "activeGames (fst (joinGame socket gameId uname s)) = activeGames s"
  "get_game s gameId = None \<Longrightarrow>
     fst (joinGame socket gameId uname s) = s \<and>
     snd (joinGame socket gameId uname s) = [(Caller socket, Error ''Game not found'')]"
  "get_game s gameId = Some (a, game) \<Longrightarrow>
     rosters (fst (joinGame socket gameId uname s)) =
       (rosters s)[a := map_set socket \<lparr>playerId = socket, username = uname, score = 0\<rparr> (rosters s ! a)] \<and>
     snd (joinGame socket gameId uname s) =
       [(Room gameId, PlayerJoined \<lparr>playerId = socket, username = uname, score = 0\<rparr>)]"
proof -
  show "activeGames (fst (joinGame socket gameId uname s)) = activeGames s"
    by (simp add: joinGame_def split: option.splits)
  show "get_game s gameId = None \<Longrightarrow>
     fst (joinGame socket gameId uname s) = s \<and>
     snd (joinGame socket gameId uname s) = [(Caller socket, Error ''Game not found'')]"
    by (simp add: joinGame_def)
  assume g: "get_game s gameId = Some (a, game)"
  have "rosters s ! a = players game"
    using deref_roster[OF get_game_deref[OF g]] by simp
  then show "rosters (fst (joinGame socket gameId uname s)) =
       (rosters s)[a := map_set socket \<lparr>playerId = socket, username = uname, score = 0\<rparr> (rosters s ! a)] \<and>
     snd (joinGame socket gameId uname s) =
       [(Room gameId, PlayerJoined \<lparr>playerId = socket, username = uname, score = 0\<rparr>)]"
    using g by (simp add: joinGame_def rosters_put_game)
qed

lemma submitAnswer_effect:
  assumes "submitAnswer socket gameId answerIndex s = Inr (s', evs)"
  shows "activeGames s' = activeGames s"
    and "(rosters s' = rosters s \<and> evs = []) \<or>
         (\<exists>a player. map_of (activeGames s) gameId = Some a \<and> a < length (rosters s) \<and>
            map_of (rosters s ! a) socket = Some player \<and>
            rosters s' = (rosters s)[a := map_set socket (player\<lparr>score := score player + 1000\<rparr>) (rosters s ! a)] \<and>
            evs = [(Room gameId, ScoreUpdate socket (score player + 1000))])"
proof -
  show "activeGames s' = activeGames s"
    using assms
    by (auto simp: submitAnswer_def Let_def split: option.splits if_splits)
  show "(rosters s' = rosters s \<and> evs = []) \<or>
         (\<exists>a player. map_of (activeGames s) gameId = Some a \<and> a < length (rosters s) \<and>
            map_of (rosters s ! a) socket = Some player \<and>
            rosters s' = (rosters s)[a := map_set socket (player\<lparr>score := score player + 1000\<rparr>) (rosters s ! a)] \<and>
            evs = [(Room gameId, ScoreUpdate socket (score player + 1000))])"
  proof (cases "get_game s gameId")
    case None
    with assms show ?thesis by (simp add: submitAnswer_def)
  next
    case (Some ag)
    obtain a game where ag: "ag = (a, game)" by (cases ag)
    note g = Some[unfolded ag]
    note d = get_game_deref[OF g]
    have r: "a < length (rosters s)" "rosters s ! a = players game"
      using deref_roster[OF d] by auto
    have m: "map_of (activeGames s) gameId = Some a" using get_game_SomeD[OF g] by simp
    have same: "(rosters s)[a := players game] = rosters s"
      using r by (metis list_update_id)
    show ?thesis using assms g r m same
      by (auto simp: submitAnswer_def Let_def rosters_put_game map_get_def
               split: option.splits if_splits)
  qed
qed

lemma map_delete_absent: "\<not> map_has m k \<Longrightarrow> map_delete k m = m"
  using AList.delete_id [of k m]
  by (auto simp: map_has_def map_delete_def map_of_eq_None_iff)

lemma map_delete_idem: "map_delete k (map_delete k m) = map_delete k m"
  by (simp add: map_delete_def delete_idem)

lemma disconnect_each_effect:
  "activeGames (fst (disconnect_each socket l s)) = activeGames s \<and>
   length (rosters (fst (disconnect_each socket l s))) = length (rosters s) \<and>
   (\<forall>b < length (rosters s).
      rosters (fst (disconnect_each socket l s)) ! b =
        (if b \<in> snd ` set l then map_delete socket (rosters s ! b) else rosters s ! b)) \<and>
   (\<forall>em \<in> set (snd (disconnect_each socket l s)). event_players (snd em) = [] \<and> \<not> credits h em)"
proof (induction l arbitrary: s)
  case Nil
  then show ?case by simp
next
  case (Cons ga rest)
  obtain gameId a where ga: "ga = (gameId, a)" by (cases ga)
  show ?case
  proof (cases "deref s a")
    case None
    then have "\<not> a < length (rosters s)"
      by (simp add: deref_def nth_opt_def rosters_length split: if_splits)
    then show ?thesis using Cons.IH[of s] None by (auto simp: ga)
  next
    case (Some game)
    note r = deref_roster[OF Some]
    show ?thesis
    proof (cases "map_has (players game) socket")
      case False
      then have "map_delete socket (rosters s ! a) = rosters s ! a"
        using r by (simp add: map_delete_absent)
      then show ?thesis using Cons.IH[of s] Some False by (auto simp: ga)
    next
      case True
      let ?s1 = "put_game a (game\<lparr>players := map_delete socket (players game)\<rparr>) s"
      have r1: "rosters ?s1 = (rosters s)[a := map_delete socket (rosters s ! a)]"
        using r by (simp add: rosters_put_game)
      have eq: "disconnect_each socket ((gameId, a) # rest) s =
                  (fst (disconnect_each socket rest ?s1),
                   (Room gameId, PlayerLeft socket) # snd (disconnect_each socket rest ?s1))"
        using Some True by (simp add: Let_def split: prod.splits)
      show ?thesis
        unfolding ga eq
        using Cons.IH[of ?s1] r
        by (auto simp: r1 nth_list_update map_delete_idem simp del: disconnect_each.simps)
    qed
  qed
qed

lemma disconnect_effect:
  "activeGames (fst (disconnect socket s)) = activeGames s"
  "length (rosters (fst (disconnect socket s))) = length (rosters s)"
  "b < length (rosters s) \<Longrightarrow>
     rosters (fst (disconnect socket s)) ! b =
       (if b \<in> snd ` set (activeGames s) then map_delete socket (rosters s ! b) else rosters s ! b)"
  "em \<in> set (snd (disconnect socket s)) \<Longrightarrow> event_players (snd em) = [] \<and> \<not> credits h em"
  using disconnect_each_effect[of socket "activeGames s" s h]
  by (auto simp: disconnect_def)

subsection \<open>Reachable states\<close>

lemma score_of_alt:
  "score_of s g p =
     (case map_of (activeGames s) g of
        None \<Rightarrow> None
      | Some a \<Rightarrow> if a < length (rosters s) then map_option score (map_of (rosters s ! a) p) else None)"
  by (simp add: score_of_def get_game_def map_get_def deref_def nth_opt_def rosters_def
           split: option.splits)

lemma player_ids_alt:
  "player_ids s g =
     (case map_of (activeGames s) g of
        None \<Rightarrow> None
      | Some a \<Rightarrow> if a < length (rosters s) then Some (fst ` set (rosters s ! a)) else None)"
  by (simp add: player_ids_def get_game_def map_get_def deref_def nth_opt_def rosters_def
        map_keys_def split: option.splits)

lemma wf_alt:
  "wf s \<longleftrightarrow>
     (\<forall>g a. map_of (activeGames s) g = Some a \<longrightarrow> a < length (rosters s)) \<and>
     (\<forall>g g' a. map_of (activeGames s) g = Some a \<and> map_of (activeGames s) g' = Some a \<longrightarrow> g = g')"
  by (simp add: wf_def rosters_length)

lemma wf_same:
  "activeGames s' = activeGames s \<Longrightarrow> length (rosters s') = length (rosters s) \<Longrightarrow> wf s \<Longrightarrow> wf s'"
  by (simp add: wf_alt)

lemma wf_init: "wf init"
  by (simp add: wf_def init_def)

lemma wf_createGame:
  assumes "wf s"
  shows "wf (fst (createGame socket qz code s))"
proof -
  let ?m = "map_of (activeGames s)"
  have range: "a < length (rosters s)" if "?m g = Some a" for g a
    using assms that unfolding wf_alt by blast
  have inj: "g = g'" if "?m g = Some a" "?m g' = Some a" for g g' a
    using assms that unfolding wf_alt by blast
  have fresh: "?m g \<noteq> Some (length (rosters s))" for g
    using range[of g "length (rosters s)"] by auto
  show ?thesis
    unfolding wf_alt createGame_effect map_of_map_set
  proof (intro conjI allI impI)
    fix g a assume "(?m(code \<mapsto> length (rosters s))) g = Some a"
    then show "a < length (rosters s @ [[]])"
      using range[of g a] by (auto split: if_splits)
  next
    fix g g' a
    assume "(?m(code \<mapsto> length (rosters s))) g = Some a \<and> (?m(code \<mapsto> length (rosters s))) g' = Some a"
    then show "g = g'"
      using inj[of g a g'] fresh[of g] fresh[of g']
      by (auto split: if_splits)
  qed
qed

lemma joinGame_length: "length (rosters (fst (joinGame socket gameId uname s))) = length (rosters s)"
proof (cases "get_game s gameId")
  case None
  then show ?thesis by (simp add: joinGame_effect(2))
next
  case (Some ag)
  obtain a game where "ag = (a, game)" by (cases ag)
  with Some show ?thesis using joinGame_effect(3)[of s gameId a game socket uname] by simp
qed

lemma submitAnswer_length:
  "submitAnswer socket gameId answerIndex s = Inr (s', evs) \<Longrightarrow> length (rosters s') = length (rosters s)"
  using submitAnswer_effect(2)[of socket gameId answerIndex s s' evs]
  by auto

lemma step_frame:
  assumes "step i s = Inr (s', evs)"
  shows "(\<exists>socket qz code. i = Command socket (CreateGame qz code)) \<or>
         (activeGames s' = activeGames s \<and> length (rosters s') = length (rosters s))"
proof (cases i)
  case (Command socket c)
  show ?thesis
  proof (cases c)
    case (CreateGame qz code)
    with Command show ?thesis by simp
  next
    case (JoinGame g u)
    with Command assms have "s' = fst (joinGame socket g u s)" by auto
    then show ?thesis by (simp add: joinGame_effect(1) joinGame_length)
  next
    case (SubmitAnswer g ai)
    with Command assms have "submitAnswer socket g ai s = Inr (s', evs)" by simp
    then show ?thesis by (simp add: submitAnswer_effect(1) submitAnswer_length)
  next
    case (NextQuestion g)
    with Command assms have "s' = fst (nextQuestion g s)" by auto
    then show ?thesis by (simp add: nextQuestion_quiet)
  next
    case (StartCountdown g)
    with Command assms have "s' = fst (startCountdown g s)" by auto
    then show ?thesis by (simp add: startCountdown_quiet)
  next
    case Disconnect
    with Command assms have "s' = fst (disconnect socket s)" by auto
    then show ?thesis by (simp add: disconnect_effect(1,2))
  qed
next
  case (Elapse d)
  with assms have "s' = elapse d s" by auto
  then show ?thesis by (simp add: elapse_quiet)
next
  case TimerFires
  with assms have "s' = fst (timer_fires s)" by auto
  then show ?thesis by (simp add: timer_fires_quiet)
qed

lemma wf_step:
  assumes "wf s" and "step i s = Inr (s', evs)"
  shows "wf s'"
  using step_frame[OF assms(2)]
proof
  assume "\<exists>socket qz code. i = Command socket (CreateGame qz code)"
  then obtain socket qz code where "i = Command socket (CreateGame qz code)" by blast
  with assms(2) have "s' = fst (createGame socket qz code s)" by auto
  then show ?thesis using wf_createGame[OF assms(1)] by simp
next
  assume "activeGames s' = activeGames s \<and> length (rosters s') = length (rosters s)"
  then show ?thesis using wf_same assms(1) by blast
qed

lemma run_Cons:
  "run (i # tr) s =
     (case step i s of
        Inl e \<Rightarrow> (Inl e, [])
      | Inr r \<Rightarrow> (fst (run tr (fst r)), snd r @ snd (run tr (fst r))))"
  by (simp add: split_beta split: sum.splits)

lemma run_Cons_Inr:
  assumes "fst (run (i # tr) s) = Inr s'"
  obtains s1 evs where "step i s = Inr (s1, evs)" and "fst (run tr s1) = Inr s'"
  using assms by (auto simp: run_Cons simp del: run.simps split: sum.splits)

lemma wf_run: "wf s \<Longrightarrow> fst (run tr s) = Inr s' \<Longrightarrow> wf s'"
proof (induction tr arbitrary: s)
  case Nil
  then show ?case by simp
next
  case (Cons i tr)
  from Cons.prems(2) obtain s1 evs where st: "step i s = Inr (s1, evs)" and r: "fst (run tr s1) = Inr s'"
    by (rule run_Cons_Inr)
  from Cons.IH[OF wf_step[OF Cons.prems(1) st] r] show ?case .
qed

lemma wf_state_after: "state_after tr = Some s \<Longrightarrow> wf s"
  using wf_run[OF wf_init, of tr s] by (auto simp: state_after_def split: sum.splits)

lemma run_append_fst:
  "fst (run (xs @ ys) s) = (case fst (run xs s) of Inl e \<Rightarrow> Inl e | Inr s1 \<Rightarrow> fst (run ys s1))"
  by (induction xs arbitrary: s) (simp_all add: run_Cons del: run.simps(2) split: sum.splits)

lemma run_append_snd:
  "snd (run (xs @ ys) s) =
     (case fst (run xs s) of Inl e \<Rightarrow> snd (run xs s) | Inr s1 \<Rightarrow> snd (run xs s) @ snd (run ys s1))"
  by (induction xs arbitrary: s) (simp_all add: run_Cons del: run.simps(2) split: sum.splits)

lemma state_after_append:
  "state_after (xs @ ys) = Some s' \<longleftrightarrow>
     (\<exists>s. state_after xs = Some s \<and> fst (run ys s) = Inr s')"
  by (auto simp: state_after_def run_append_fst split: sum.splits)

subsection \<open>Pending callbacks hold allocated game objects\<close>

lemma closures_ok_mono:
  assumes "closures_ok s" and "set (pending s') \<subseteq> set (pending s)"
      and "length (heap s) \<le> length (heap s')"
  shows "closures_ok s'"
  using assms unfolding closures_ok_def by (meson less_le_trans subsetD)

lemma deref_Some_range: "deref s a = Some game \<Longrightarrow> a < length (heap s)"
  by (simp add: deref_def nth_opt_def split: if_splits)

lemma startQuestionTimer_closures: "closures_ok s \<Longrightarrow> closures_ok (startQuestionTimer gameId s)"
  by (auto simp: startQuestionTimer_def closures_ok_def setTimeout_def clearTimeout_def Let_def
                 put_game_def
           dest!: get_game_SomeD(2)
           split: option.splits prod.splits)

lemma closures_ok_put_game [simp]: "closures_ok (put_game a game s) = closures_ok s"
  by (simp add: closures_ok_def put_game_def)

lemma run_callback_closures: "closures_ok s \<Longrightarrow> closures_ok (fst (run_callback cb s))"
proof (cases cb)
  case (QuestionTimeout g a q)
  assume "closures_ok s"
  then show ?thesis
    by (auto simp: QuestionTimeout closures_ok_def setTimeout_def Let_def put_game_def
             dest: deref_Some_range split: option.splits)
next
  case (RevealPause g a)
  assume ok: "closures_ok s"
  show ?thesis
    using ok startQuestionTimer_closures
    by (auto simp: RevealPause Let_def split: option.splits)
next
  case (CountdownDone g a)
  assume ok: "closures_ok s"
  show ?thesis
    using ok startQuestionTimer_closures
    by (auto simp: CountdownDone Let_def split: option.splits)
qed

lemma disconnect_each_pending:
  "pending (fst (disconnect_each socket l s)) = pending s \<and>
   length (heap (fst (disconnect_each socket l s))) = length (heap s)"
  by (induction l arbitrary: s) (auto simp: Let_def split_beta split: option.splits)

lemma closures_step:
  assumes ok: "closures_ok s" and st: "step i s = Inr (s', evs)"
  shows "closures_ok s'"
proof (cases i)
  case (Elapse d)
  with st have "s' = elapse d s" by auto
  then show ?thesis using ok by (auto simp: elapse_def closures_ok_def split: option.splits)
next
  case TimerFires
  with st have s': "s' = fst (timer_fires s)" by auto
  show ?thesis
  proof (cases "next_due (pending s)")
    case None
    then show ?thesis using ok by (simp add: s' timer_fires_def)
  next
    case (Some t)
    have "closures_ok (s\<lparr>pending := filter (\<lambda>u. handle u \<noteq> handle t) (pending s),
                         now := max (now s) (due t)\<rparr>)"
      by (rule closures_ok_mono[OF ok]) auto
    from run_callback_closures[OF this] show ?thesis by (simp add: s' timer_fires_def Some)
  qed
next
  case (Command socket c)
  show ?thesis
  proof (cases c)
    case (CreateGame qz code)
    with Command st have "s' = fst (createGame socket qz code s)" by auto
    then show ?thesis using ok by (auto simp: createGame_def Let_def closures_ok_def)
  next
    case (JoinGame g u)
    with Command st have "s' = fst (joinGame socket g u s)" by auto
    then show ?thesis using ok by (auto simp: joinGame_def split: option.splits)
  next
    case (SubmitAnswer g ai)
    with Command st show ?thesis using ok
      by (auto simp: submitAnswer_def Let_def split: option.splits if_splits)
  next
    case (NextQuestion g)
    with Command st have "s' = fst (nextQuestion g s)" by auto
    then show ?thesis using ok startQuestionTimer_closures
      by (auto simp: nextQuestion_def Let_def split: option.splits prod.splits if_splits)
  next
    case (StartCountdown g)
    with Command st have "s' = fst (startCountdown g s)" by auto
    then show ?thesis using ok
      by (auto simp: startCountdown_def setTimeout_def closures_ok_def
               dest!: get_game_SomeD(2) split: option.splits)
  next
    case Disconnect
    with Command st have "s' = fst (disconnect socket s)" by auto
    then show ?thesis
      using closures_ok_mono[OF ok, of s'] disconnect_each_pending[of socket "activeGames s" s]
      by (simp add: disconnect_def)
  qed
qed

lemma closures_run: "closures_ok s \<Longrightarrow> fst (run tr s) = Inr s' \<Longrightarrow> closures_ok s'"
proof (induction tr arbitrary: s)
  case Nil
  then show ?case by simp
next
  case (Cons i tr)
  from Cons.prems(2) obtain s1 evs where st: "step i s = Inr (s1, evs)" and r: "fst (run tr s1) = Inr s'"
    by (rule run_Cons_Inr)
  from Cons.IH[OF closures_step[OF Cons.prems(1) st] r] show ?case .
qed

text \<open>
  On every state the server reaches, a code in \<^verbatim>\<open>activeGames\<close> resolves to a game object
  and every pending callback finds the game object it captured: the \<open>None\<close> branches of
  \<open>get_game\<close> after a successful lookup, and of \<open>deref\<close> in \<open>run_callback\<close> and
  \<open>disconnect_each\<close>, are never taken.
\<close>

lemma reachable_no_dangling:
  assumes "state_after tr = Some s"
  shows "\<forall>g a. map_get (activeGames s) g = Some a \<longrightarrow> deref s a \<noteq> None"
    and "\<forall>t \<in> set (pending s). deref s (closure_game (callback t)) \<noteq> None"
proof -
  from wf_state_after[OF assms]
  show "\<forall>g a. map_get (activeGames s) g = Some a \<longrightarrow> deref s a \<noteq> None"
    by (auto simp: wf_def map_get_def deref_def nth_opt_def)
  have "closures_ok init" by (simp add: closures_ok_def init_def)
  moreover have "fst (run tr init) = Inr s"
    using assms by (auto simp: state_after_def split: sum.splits)
  ultimately have "closures_ok s" by (rule closures_run)
  then show "\<forall>t \<in> set (pending s). deref s (closure_game (callback t)) \<noteq> None"
    by (auto simp: closures_ok_def deref_def nth_opt_def)
qed

subsection \<open>Scores\<close>

lemma score_of_same:
  assumes a: "activeGames s' = activeGames s" and r: "rosters s' = rosters s"
  shows "score_of s' g p = score_of s g p"
  unfolding score_of_alt a r by (rule refl)

lemma map_of_map_delete: "map_of (map_delete k m) = (map_of m)(k := None)"
  by (simp add: map_delete_def delete_conv')

lemma score_step:
  assumes wf: "wf s"
      and st: "step i s = Inr (s', evs)"
      and nj: "\<forall>u. i \<noteq> Command p (JoinGame gameId u)"
      and sc: "score_of s' gameId p = Some v'"
  shows "\<exists>v. score_of s gameId p = Some v \<and> v \<le> v'"
proof -
  let ?m = "map_of (activeGames s)"
  have range: "a < length (rosters s)" if "?m g = Some a" for g a
    using wf that unfolding wf_alt by blast
  have inj: "g = g'" if "?m g = Some a" "?m g' = Some a" for g g' a
    using wf that unfolding wf_alt by blast
  have quiet: ?thesis if "activeGames s' = activeGames s" "rosters s' = rosters s"
    using score_of_same[OF that] sc by simp
  show ?thesis
  proof (cases i)
    case (Elapse d)
    with st have "s' = elapse d s" by auto
    then show ?thesis by (intro quiet) (simp_all add: elapse_quiet)
  next
    case TimerFires
    with st have "s' = fst (timer_fires s)" by auto
    then show ?thesis by (intro quiet) (simp_all add: timer_fires_quiet)
  next
    case (Command socket c)
    show ?thesis
    proof (cases c)
      case (NextQuestion g)
      with Command st have "s' = fst (nextQuestion g s)" by auto
      then show ?thesis by (intro quiet) (simp_all add: nextQuestion_quiet)
    next
      case (StartCountdown g)
      with Command st have "s' = fst (startCountdown g s)" by auto
      then show ?thesis by (intro quiet) (simp_all add: startCountdown_quiet)
    next
      case (CreateGame qz code)
      with Command st have s': "s' = fst (createGame socket qz code s)" by auto
      show ?thesis
      proof (cases "code = gameId")
        case True
        then have "score_of s' gameId p = None"
          by (simp add: s' score_of_alt createGame_effect map_of_map_set)
        with sc show ?thesis by simp
      next
        case False
        then have "score_of s' gameId p = score_of s gameId p"
          using range[of gameId]
          by (auto simp: s' score_of_alt createGame_effect map_of_map_set nth_append
                   split: option.splits)
        with sc show ?thesis by simp
      qed
    next
      case (JoinGame g u)
      with Command st have s': "s' = fst (joinGame socket g u s)" by auto
      have ne: "\<not> (socket = p \<and> g = gameId)" using nj Command JoinGame by auto
      show ?thesis
      proof (cases "get_game s g")
        case None
        then have "s' = s" by (simp add: s' joinGame_effect(2))
        with sc show ?thesis by simp
      next
        case (Some ag)
        obtain a game where ag: "ag = (a, game)" by (cases ag)
        note gg = Some[unfolded ag]
        note eff = joinGame_effect(3)[where socket = socket and uname = u, OF gg, THEN conjunct1]
        have ma: "?m g = Some a" using get_game_SomeD[OF gg] by simp
        have "score_of s' gameId p = score_of s gameId p"
        proof (cases "?m gameId")
          case None
          then show ?thesis by (simp add: s' score_of_alt joinGame_effect(1))
        next
          case (Some b)
          show ?thesis
          proof (cases "b = a")
            case True
            with Some ma have "g = gameId" using inj by blast
            with ne have "p \<noteq> socket" by auto
            then show ?thesis using Some True
              by (simp add: s' score_of_alt joinGame_effect(1) eff map_of_map_set)
          next
            case False
            then show ?thesis using Some
              by (simp add: s' score_of_alt joinGame_effect(1) eff)
          qed
        qed
        with sc show ?thesis by simp
      qed
    next
      case (SubmitAnswer g ai)
      with Command st have sub: "submitAnswer socket g ai s = Inr (s', evs)" by simp
      note ag = submitAnswer_effect(1)[OF sub]
      from submitAnswer_effect(2)[OF sub] show ?thesis
      proof
        assume "rosters s' = rosters s \<and> evs = []"
        then show ?thesis using quiet ag by simp
      next
        assume "\<exists>a player. ?m g = Some a \<and> a < length (rosters s) \<and>
            map_of (rosters s ! a) socket = Some player \<and>
            rosters s' = (rosters s)[a := map_set socket (player\<lparr>score := score player + 1000\<rparr>) (rosters s ! a)] \<and>
            evs = [(Room g, ScoreUpdate socket (score player + 1000))]"
        then obtain a player where a: "a < length (rosters s)"
          and pl: "map_of (rosters s ! a) socket = Some player"
          and r': "rosters s' = (rosters s)[a := map_set socket (player\<lparr>score := score player + 1000\<rparr>) (rosters s ! a)]"
          by blast
        show ?thesis
        proof (cases "?m gameId")
          case None
          with sc show ?thesis by (simp add: score_of_alt ag)
        next
          case (Some b)
          show ?thesis
          proof (cases "b = a \<and> p = socket")
            case True
            then have "score_of s' gameId p = Some (score player + 1000)"
              using Some a by (simp add: score_of_alt ag r' map_of_map_set)
            moreover have "score_of s gameId p = Some (score player)"
              using Some a True pl by (simp add: score_of_alt)
            ultimately show ?thesis using sc by simp
          next
            case False
            then have "score_of s' gameId p = score_of s gameId p"
              using Some a
              by (cases "b = a") (auto simp: score_of_alt ag r' map_of_map_set)
            with sc show ?thesis by simp
          qed
        qed
      qed
    next
      case Disconnect
      with Command st have s': "s' = fst (disconnect socket s)" by auto
      note eff = disconnect_effect(1-3)[where socket = socket and s = s]
      show ?thesis
      proof (cases "?m gameId")
        case None
        with sc show ?thesis by (simp add: s' score_of_alt eff(1))
      next
        case (Some b)
        then have b: "b < length (rosters s)" by (rule range)
        have "score_of s gameId p = Some v'"
          using sc Some b eff(3)[OF b]
          by (auto simp: s' score_of_alt eff(1,2) map_of_map_delete split: if_splits)
        then show ?thesis by simp
      qed
    qed
  qed
qed

lemma score_run:
  assumes "wf s" and "fst (run tr s) = Inr s'"
      and "\<forall>u. Command p (JoinGame gameId u) \<notin> set tr"
      and "score_of s' gameId p = Some v'"
  shows "\<exists>v. score_of s gameId p = Some v \<and> v \<le> v'"
  using assms
proof (induction tr arbitrary: s)
  case Nil
  then show ?case by simp
next
  case (Cons i tr)
  from Cons.prems(2) obtain s1 evs where st: "step i s = Inr (s1, evs)" and r: "fst (run tr s1) = Inr s'"
    by (rule run_Cons_Inr)
  have "\<exists>v1. score_of s1 gameId p = Some v1 \<and> v1 \<le> v'"
    using Cons.IH[OF wf_step[OF Cons.prems(1) st] r] Cons.prems(3,4) by simp
  then obtain v1 where v1: "score_of s1 gameId p = Some v1" "v1 \<le> v'" by blast
  have "\<forall>u. i \<noteq> Command p (JoinGame gameId u)" using Cons.prems(3) by auto
  from score_step[OF Cons.prems(1) st this v1(1)] v1(2) show ?case by auto
qed

text \<open>
  Claim C6 as stated does not hold. A connection that sends \<^verbatim>\<open>joinGame\<close> again for the session it is in gets a fresh
  player entry: the 1000 points the player had are gone.
\<close>

theorem rejoin_lowers_score:
  "score_after ex_answered2 ''abc'' ''P'' = Some 1000 \<and>
   score_after (ex_answered2 @ [Command ''P'' (JoinGame ''abc'' ''pat'')]) ''abc'' ''P'' = Some 0"
  by (simp add: ex_defs eval_defs)

text \<open>
  Claim C6, as the code has it. The score recorded under a player id in a session never
  decreases over any inputs (commands of any connection, time passing, timers firing)
  among which that connection sends no \<^verbatim>\<open>joinGame\<close> for that session: whenever the id has
  a score before and after, the later one is at least the earlier one.
\<close>

theorem score_never_decreases_without_rejoin:
  assumes "\<forall>u. Command p (JoinGame gameId u) \<notin> set post"
      and "score_after pre gameId p = Some v"
      and "score_after (pre @ post) gameId p = Some v'"
  shows "v \<le> v'"
proof -
  from assms(3) obtain s' where s': "state_after (pre @ post) = Some s'" "score_of s' gameId p = Some v'"
    by (auto simp: score_after_def split: option.splits)
  from s'(1) obtain s where s: "state_after pre = Some s" "fst (run post s) = Inr s'"
    unfolding state_after_append by blast
  have "score_of s gameId p = Some v" using assms(2) s(1) by (simp add: score_after_def)
  with score_run[OF wf_state_after[OF s(1)] s(2) assms(1) s'(2)] show ?thesis by simp
qed

theorem score_never_decreases_without_rejoin_witness:
  "Command ''P'' (JoinGame ''abc'' ''pat'') \<notin>
     set [Command ''H'' (NextQuestion ''abc''), Command ''P'' (SubmitAnswer ''abc'' 1)] \<and>
   score_after ex_answered2 ''abc'' ''P'' = Some 1000 \<and>
   score_after (ex_answered2 @ [Command ''H'' (NextQuestion ''abc''), Command ''P'' (SubmitAnswer ''abc'' 1)])
     ''abc'' ''P'' = Some 2000 \<and>
   (1000::int) \<le> 2000"
proof -
  have h1: "\<forall>u. Command ''P'' (JoinGame ''abc'' u) \<notin>
     set [Command ''H'' (NextQuestion ''abc''), Command ''P'' (SubmitAnswer ''abc'' 1)]" by simp
  have h2: "score_after ex_answered2 ''abc'' ''P'' = Some 1000"
    by (simp add: ex_defs eval_defs)
  have h3: "score_after (ex_answered2 @ [Command ''H'' (NextQuestion ''abc''), Command ''P'' (SubmitAnswer ''abc'' 1)])
     ''abc'' ''P'' = Some 2000"
    by (simp add: ex_defs eval_defs)
  from score_never_decreases_without_rejoin[OF h1 h2 h3] h1 h2 h3 show ?thesis by simp
qed

subsection \<open>Creating a session\<close>

lemma state_after_snoc:
  assumes "state_after tr = Some s"
  shows "state_after (tr @ [i]) = (case step i s of Inl e \<Rightarrow> None | Inr r \<Rightarrow> Some (fst r))"
    and "snd (run (tr @ [i]) init) = snd (run tr init) @ (case step i s of Inl e \<Rightarrow> [] | Inr r \<Rightarrow> snd r)"
  using assms
  by (auto simp: state_after_def run_append_fst run_append_snd run_Cons
           simp del: run.simps(2) split: sum.splits)

lemma get_game_createGame:
  assumes "wf s"
  shows "get_game (fst (createGame socket qz code s)) g =
           (if g = code
            then Some (length (heap s),
                       \<lparr>players = [], currentQuestion = 0, quiz = qz, answers = [], timer = None\<rparr>)
            else get_game s g)"
proof (cases "g = code")
  case True
  then show ?thesis
    by (simp add: createGame_def Let_def get_game_def map_get_def map_of_map_set deref_def
          nth_opt_def)
next
  case False
  show ?thesis
  proof (cases "map_of (activeGames s) g")
    case None
    with False show ?thesis
      by (simp add: createGame_def Let_def get_game_def map_get_def map_of_map_set)
  next
    case (Some a)
    then have "a < length (heap s)" using assms by (auto simp: wf_def)
    with False Some show ?thesis
      by (simp add: createGame_def Let_def get_game_def map_get_def map_of_map_set deref_def
            nth_opt_def nth_append)
  qed
qed

text \<open>
  Claim C7 as stated does not hold. \<^verbatim>\<open>createGame\<close> does not look at \<^verbatim>\<open>activeGames\<close> before it stores the new session: when
  the random source yields the code of a live session, that session (here with one
  player in its lobby) is replaced under its code by the new, empty one.
\<close>

theorem createGame_same_code_replaces_session:
  "session_after ex_lobby1 ''abc'' =
     Some \<lparr>players = [(''P'', \<lparr>playerId = ''P'', username = ''pat'', score = 0\<rparr>)],
           currentQuestion = 0, quiz = ex_quiz1, answers = [], timer = None\<rparr> \<and>
   session_after (ex_lobby1 @ [Command ''G'' (CreateGame ex_quiz2 ''abc'')]) ''abc'' =
     Some \<lparr>players = [], currentQuestion = 0, quiz = ex_quiz2, answers = [], timer = None\<rparr>"
  by (simp add: ex_defs eval_defs)

text \<open>
  Claim C7, as the code has it. \<^verbatim>\<open>createGame\<close> stores a new session under the generated
  code whatever the code is, and answers \<^verbatim>\<open>gameCreated\<close> to the caller: the session has an
  empty player map, an empty answer record, no timer and current question index 0 (the
  index of the first question). Sessions under other codes are untouched; a session that
  had the same code is no longer reachable under it.
\<close>

theorem createGame_binds_fresh_session:
  assumes "state_after tr \<noteq> None"
  shows "snd (run (tr @ [Command socket (CreateGame qz code)]) init) =
           snd (run tr init) @ [(Caller socket, GameCreated code)] \<and>
         session_after (tr @ [Command socket (CreateGame qz code)]) code =
           Some \<lparr>players = [], currentQuestion = 0, quiz = qz, answers = [], timer = None\<rparr> \<and>
         (\<forall>g. g \<noteq> code \<longrightarrow>
            session_after (tr @ [Command socket (CreateGame qz code)]) g = session_after tr g)"
proof -
  from assms obtain s where s: "state_after tr = Some s" by auto
  note wf = wf_state_after[OF s]
  have st: "state_after (tr @ [Command socket (CreateGame qz code)]) = Some (fst (createGame socket qz code s))"
    by (simp add: state_after_snoc(1)[OF s])
  have ev: "snd (run (tr @ [Command socket (CreateGame qz code)]) init) =
           snd (run tr init) @ [(Caller socket, GameCreated code)]"
    by (simp add: state_after_snoc(2)[OF s] createGame_effect(3))
  have fresh: "session_after (tr @ [Command socket (CreateGame qz code)]) code =
           Some \<lparr>players = [], currentQuestion = 0, quiz = qz, answers = [], timer = None\<rparr>"
    by (simp add: session_after_def st get_game_createGame[OF wf])
  have other: "session_after (tr @ [Command socket (CreateGame qz code)]) g = session_after tr g"
    if "g \<noteq> code" for g
    using that by (simp add: session_after_def st s get_game_createGame[OF wf])
  from ev fresh other show ?thesis by blast
qed

theorem createGame_binds_fresh_session_witness:
  "state_after ex_two_sessions \<noteq> None \<and>
   snd (run (ex_two_sessions @ [Command ''H'' (CreateGame ex_quiz2 ''abc'')]) init) =
     snd (run ex_two_sessions init) @ [(Caller ''H'', GameCreated ''abc'')] \<and>
   session_after ex_two_sessions ''abc'' =
     Some \<lparr>players = [(''P'', \<lparr>playerId = ''P'', username = ''pat'', score = 0\<rparr>)],
           currentQuestion = 0, quiz = ex_quiz1, answers = [], timer = None\<rparr> \<and>
   session_after (ex_two_sessions @ [Command ''H'' (CreateGame ex_quiz2 ''abc'')]) ''abc'' =
     Some \<lparr>players = [], currentQuestion = 0, quiz = ex_quiz2, answers = [], timer = None\<rparr> \<and>
   ''xyz'' \<noteq> ''abc'' \<and>
   session_after (ex_two_sessions @ [Command ''H'' (CreateGame ex_quiz2 ''abc'')]) ''xyz'' =
     session_after ex_two_sessions ''xyz''"
proof -
  have h: "state_after ex_two_sessions \<noteq> None"
    by (simp add: ex_defs eval_defs)
  have before: "session_after ex_two_sessions ''abc'' =
     Some \<lparr>players = [(''P'', \<lparr>playerId = ''P'', username = ''pat'', score = 0\<rparr>)],
           currentQuestion = 0, quiz = ex_quiz1, answers = [], timer = None\<rparr>"
    by (simp add: ex_defs eval_defs)
  from createGame_binds_fresh_session[OF h, of "''H''" ex_quiz2 "''abc''"] h before
  show ?thesis by simp
qed

subsection \<open>Starting the countdown\<close>

lemma ex_over1_reached: "state_after ex_finished1 = Some ex_over1"
  by (simp add: ex_defs eval_defs)

text \<open>
  Claim C8 as stated does not hold. \<^verbatim>\<open>startCountdown\<close> has no test of the state of the session. Sent while question 1 is on
  show, it emits \<^verbatim>\<open>startCountdown\<close> again and schedules another countdown callback; that
  one fires during the reveal pause and emits \<^verbatim>\<open>newQuestion\<close> for question 1 a second time.
\<close>

theorem startCountdown_during_question:
  "state_after ex_started2 = Some ex_active2 \<and>
   snd (startCountdown ''abc'' ex_active2) = [(Room ''abc'', StartCountdownEv)] \<and>
   pending (fst (startCountdown ''abc'' ex_active2)) =
     pending ex_active2 @ [\<lparr>handle = 2, due = 10000, callback = CountdownDone ''abc'' 0\<rparr>] \<and>
   snd (run (ex_started2 @ [Command ''H'' (StartCountdown ''abc''), TimerFires, TimerFires]) init) =
     [(Caller ''H'', GameCreated ''abc''),
      (Room ''abc'', PlayerJoined \<lparr>playerId = ''P'', username = ''pat'', score = 0\<rparr>),
      (Room ''abc'', StartCountdownEv),
      (Room ''abc'', NewQuestion ex_q1 5),
      (Room ''abc'', StartCountdownEv),
      (Room ''abc'', RevealAnswer 3 [] [\<lparr>playerId = ''P'', username = ''pat'', score = 0\<rparr>]),
      (Room ''abc'', NewQuestion ex_q1 5)]"
  by (simp add: ex_defs eval_defs)

text \<open>
  Claim C8, as the code has it. \<^verbatim>\<open>startCountdown\<close> is a no-op only for a code with no
  session. On an existing session, whatever its state, it emits \<^verbatim>\<open>startCountdown\<close> to the
  room and schedules the 5000 ms callback, changing nothing else. When the callback runs
  on a session whose index is at or past the number of questions it emits nothing and
  changes nothing; otherwise it emits \<^verbatim>\<open>newQuestion\<close> for the current question.
\<close>

theorem startCountdown_in_any_state:
  "(get_game s gameId = None \<longrightarrow> startCountdown gameId s = (s, [])) \<and>
   (\<forall>a game. get_game s gameId = Some (a, game) \<longrightarrow>
      startCountdown gameId s =
        (s\<lparr>pending := pending s @
              [\<lparr>handle = nextHandle s, due = now s + 5000, callback = CountdownDone gameId a\<rparr>],
           nextHandle := nextHandle s + 1\<rparr>,
         [(Room gameId, StartCountdownEv)])) \<and>
   (\<forall>a game. deref s a = Some game \<and> length (questions (quiz game)) \<le> currentQuestion game \<longrightarrow>
      run_callback (CountdownDone gameId a) s = (s, [])) \<and>
   (\<forall>a game. deref s a = Some game \<and> currentQuestion game < length (questions (quiz game)) \<longrightarrow>
      snd (run_callback (CountdownDone gameId a) s) =
        [(Room gameId,
          NewQuestion (questions (quiz game) ! currentQuestion game)
            (timeLimit (questions (quiz game) ! currentQuestion game)))])"
  by (auto simp: startCountdown_def setTimeout_def Let_def)

theorem startCountdown_in_any_state_witness:
  "get_game ex_active2 ''nope'' = None \<and> startCountdown ''nope'' ex_active2 = (ex_active2, []) \<and>
   get_game ex_active2 ''abc'' = Some (0, ex_game_active2) \<and>
   startCountdown ''abc'' ex_active2 =
     (ex_active2\<lparr>pending := pending ex_active2 @
                   [\<lparr>handle = 2, due = 10000, callback = CountdownDone ''abc'' 0\<rparr>],
                 nextHandle := 3\<rparr>,
      [(Room ''abc'', StartCountdownEv)]) \<and>
   deref ex_active2 0 = Some ex_game_active2 \<and>
   currentQuestion ex_game_active2 < length (questions (quiz ex_game_active2)) \<and>
   snd (run_callback (CountdownDone ''abc'' 0) ex_active2) = [(Room ''abc'', NewQuestion ex_q1 5)] \<and>
   deref ex_over1 0 = Some (heap ex_over1 ! 0) \<and>
   length (questions (quiz (heap ex_over1 ! 0))) \<le> currentQuestion (heap ex_over1 ! 0) \<and>
   run_callback (CountdownDone ''abc'' 0) ex_over1 = (ex_over1, [])"
proof -
  have n: "get_game ex_active2 ''nope'' = None"
    by (simp add: ex_defs get_game_def map_get_def)
  have g: "get_game ex_active2 ''abc'' = Some (0, ex_game_active2)"
    by (simp add: ex_defs get_game_def map_get_def deref_def nth_opt_def)
  have d: "deref ex_active2 0 = Some ex_game_active2"
    by (simp add: ex_defs deref_def nth_opt_def)
  have lt: "currentQuestion ex_game_active2 < length (questions (quiz ex_game_active2))"
    by (simp add: ex_defs)
  have d': "deref ex_over1 0 = Some (heap ex_over1 ! 0)"
    by (simp add: ex_defs deref_def nth_opt_def)
  have ge: "length (questions (quiz (heap ex_over1 ! 0))) \<le> currentQuestion (heap ex_over1 ! 0)"
    by (simp add: ex_defs)
  have f: "nextHandle ex_active2 = 2" "now ex_active2 = 5000"
    "questions (quiz ex_game_active2) ! currentQuestion ex_game_active2 = ex_q1" "timeLimit ex_q1 = 5"
    by (simp_all add: ex_defs)
  have c1: "startCountdown ''nope'' ex_active2 = (ex_active2, [])"
    using startCountdown_in_any_state [of ex_active2 "''nope''"] n by blast
  have c2: "startCountdown ''abc'' ex_active2 =
     (ex_active2\<lparr>pending := pending ex_active2 @
                   [\<lparr>handle = 2, due = 10000, callback = CountdownDone ''abc'' 0\<rparr>],
                 nextHandle := 3\<rparr>,
      [(Room ''abc'', StartCountdownEv)])"
    using startCountdown_in_any_state [of ex_active2 "''abc''"] g f(1,2) by simp
  have c3: "snd (run_callback (CountdownDone ''abc'' 0) ex_active2) = [(Room ''abc'', NewQuestion ex_q1 5)]"
    using startCountdown_in_any_state [of ex_active2 "''abc''"] d lt f(3,4) by simp
  have c4: "run_callback (CountdownDone ''abc'' 0) ex_over1 = (ex_over1, [])"
    using startCountdown_in_any_state [of ex_over1 "''abc''"] d' ge by blast
  from n c1 g c2 d lt c3 d' ge c4 show ?thesis by blast
qed

subsection \<open>Who is in the player map\<close>

lemma player_ids_same:
  assumes a: "activeGames s' = activeGames s" and r: "rosters s' = rosters s"
  shows "player_ids s' g = player_ids s g"
  unfolding player_ids_alt a r by (rule refl)

lemma keys_map_set: "fst ` set (map_set k v m) = insert k (fst ` set m)"
  by (simp add: map_set_def dom_update)

lemma keys_map_delete: "fst ` set (map_delete k m) = fst ` set m - {k}"
proof -
  have "set (map fst (map_delete k m)) = set (map fst m) - {k}"
    unfolding map_delete_def delete_keys by simp
  then show ?thesis by simp
qed

lemma player_ids_step:
  assumes wf: "wf s" and st: "step i s = Inr (s', evs)"
  shows "player_ids s' gameId = joined_step gameId (player_ids s gameId) i"
proof -
  let ?m = "map_of (activeGames s)"
  have range: "a < length (rosters s)" if "?m g = Some a" for g a
    using wf that unfolding wf_alt by blast
  have inj: "g = g'" if "?m g = Some a" "?m g' = Some a" for g g' a
    using wf that unfolding wf_alt by blast
  have quiet: "player_ids s' gameId = player_ids s gameId"
    if "activeGames s' = activeGames s" "rosters s' = rosters s"
    using player_ids_same[OF that] .
  show ?thesis
  proof (cases i)
    case (Elapse d)
    with st have "s' = elapse d s" by auto
    then have "player_ids s' gameId = player_ids s gameId"
      by (intro quiet) (simp_all add: elapse_quiet)
    with Elapse show ?thesis by simp
  next
    case TimerFires
    with st have "s' = fst (timer_fires s)" by auto
    then have "player_ids s' gameId = player_ids s gameId"
      by (intro quiet) (simp_all add: timer_fires_quiet)
    with TimerFires show ?thesis by simp
  next
    case (Command socket c)
    show ?thesis
    proof (cases c)
      case (NextQuestion g)
      with Command st have "s' = fst (nextQuestion g s)" by auto
      then have "player_ids s' gameId = player_ids s gameId"
        by (intro quiet) (simp_all add: nextQuestion_quiet)
      with Command NextQuestion show ?thesis by simp
    next
      case (StartCountdown g)
      with Command st have "s' = fst (startCountdown g s)" by auto
      then have "player_ids s' gameId = player_ids s gameId"
        by (intro quiet) (simp_all add: startCountdown_quiet)
      with Command StartCountdown show ?thesis by simp
    next
      case (CreateGame qz code)
      with Command st have s': "s' = fst (createGame socket qz code s)" by auto
      have "player_ids s' gameId = (if code = gameId then Some {} else player_ids s gameId)"
        by (simp add: s' player_ids_def get_game_createGame[OF wf] map_keys_def)
      with Command CreateGame show ?thesis by simp
    next
      case (JoinGame g u)
      with Command st have s': "s' = fst (joinGame socket g u s)" by auto
      have "player_ids s' gameId =
              (if g = gameId then map_option (insert socket) (player_ids s gameId)
               else player_ids s gameId)"
      proof (cases "get_game s g")
        case None
        then have "s' = s" by (simp add: s' joinGame_effect(2))
        moreover have "g = gameId \<Longrightarrow> player_ids s gameId = None"
          using None by (simp add: player_ids_def)
        ultimately show ?thesis by auto
      next
        case (Some ag)
        obtain a game where ag: "ag = (a, game)" by (cases ag)
        note gg = Some[unfolded ag]
        note eff = joinGame_effect(3)[where socket = socket and uname = u, OF gg, THEN conjunct1]
        have ma: "?m g = Some a" and a: "a < length (rosters s)"
          using get_game_SomeD[OF gg] by (simp_all add: rosters_length)
        show ?thesis
        proof (cases "g = gameId")
          case True
          then have e: "gameId = g" by simp
          show ?thesis unfolding e using ma a
            by (simp add: s' player_ids_alt joinGame_effect(1) eff keys_map_set)
        next
          case False
          have "player_ids s' gameId = player_ids s gameId"
          proof (cases "?m gameId")
            case None
            then show ?thesis by (simp add: s' player_ids_alt joinGame_effect(1))
          next
            case (Some b)
            with ma False have "b \<noteq> a" using inj by blast
            then show ?thesis using Some
              by (simp add: s' player_ids_alt joinGame_effect(1) eff)
          qed
          with False show ?thesis by simp
        qed
      qed
      with Command JoinGame show ?thesis by simp
    next
      case (SubmitAnswer g ai)
      with Command st have sub: "submitAnswer socket g ai s = Inr (s', evs)" by simp
      note ag = submitAnswer_effect(1)[OF sub]
      have "player_ids s' gameId = player_ids s gameId"
        using submitAnswer_effect(2)[OF sub]
      proof
        assume "rosters s' = rosters s \<and> evs = []"
        then show ?thesis using quiet ag by simp
      next
        assume "\<exists>a player. ?m g = Some a \<and> a < length (rosters s) \<and>
            map_of (rosters s ! a) socket = Some player \<and>
            rosters s' = (rosters s)[a := map_set socket (player\<lparr>score := score player + 1000\<rparr>) (rosters s ! a)] \<and>
            evs = [(Room g, ScoreUpdate socket (score player + 1000))]"
        then obtain a player where a: "a < length (rosters s)"
          and pl: "map_of (rosters s ! a) socket = Some player"
          and r': "rosters s' = (rosters s)[a := map_set socket (player\<lparr>score := score player + 1000\<rparr>) (rosters s ! a)]"
          by blast
        from pl have "socket \<in> fst ` set (rosters s ! a)"
          by (metis domI dom_map_of_conv_image_fst)
        then have keys: "fst ` set (map_set socket (player\<lparr>score := score player + 1000\<rparr>) (rosters s ! a))
                         = fst ` set (rosters s ! a)"
          by (auto simp: keys_map_set)
        show ?thesis
        proof (cases "?m gameId")
          case None
          then show ?thesis by (simp add: player_ids_alt ag)
        next
          case (Some b)
          then show ?thesis using a keys
            by (cases "b = a") (simp_all add: player_ids_alt ag r')
        qed
      qed
      with Command SubmitAnswer show ?thesis by simp
    next
      case Disconnect
      with Command st have s': "s' = fst (disconnect socket s)" by auto
      note eff = disconnect_effect(1-3)[where socket = socket and s = s]
      have "player_ids s' gameId = map_option (\<lambda>S. S - {socket}) (player_ids s gameId)"
      proof (cases "?m gameId")
        case None
        then show ?thesis by (simp add: s' player_ids_alt eff(1))
      next
        case (Some b)
        then have b: "b < length (rosters s)" by (rule range)
        have "b \<in> snd ` set (activeGames s)"
          using map_of_SomeD[OF Some] by (auto intro: rev_image_eqI)
        then show ?thesis using Some b eff(3)[OF b]
          by (simp add: s' player_ids_alt eff(1,2) keys_map_delete)
      qed
      with Command Disconnect show ?thesis by simp
    qed
  qed
qed

lemma player_ids_run:
  "wf s \<Longrightarrow> fst (run tr s) = Inr s' \<Longrightarrow>
     player_ids s' gameId = foldl (joined_step gameId) (player_ids s gameId) tr"
proof (induction tr arbitrary: s)
  case Nil
  then show ?case by simp
next
  case (Cons i tr)
  from Cons.prems(2) obtain s1 evs where st: "step i s = Inr (s1, evs)" and r: "fst (run tr s1) = Inr s'"
    by (rule run_Cons_Inr)
  from Cons.IH[OF wf_step[OF Cons.prems(1) st] r] player_ids_step[OF Cons.prems(1) st, of gameId]
  show ?case by simp
qed

lemma no_entry_Nil: "no_entry h []"
  by (simp add: no_entry_def map_keys_def map_values_def)

lemma set_map_set: "set (map_set k v m) \<subseteq> insert (k, v) (set m)"
  unfolding map_set_def by (induction m) auto

lemma set_map_delete: "set (map_delete k m) \<subseteq> set m"
  unfolding map_delete_def by (induction m) auto

lemma no_entry_iff: "no_entry h r \<longleftrightarrow> (\<forall>(k, v) \<in> set r. k \<noteq> h \<and> playerId v \<noteq> h)"
  by (force simp: no_entry_def map_keys_def map_values_def)

lemma no_entry_map_set:
  "no_entry h r \<Longrightarrow> k \<noteq> h \<Longrightarrow> playerId v \<noteq> h \<Longrightarrow> no_entry h (map_set k v r)"
  using set_map_set[of k v r] unfolding no_entry_iff by blast

lemma no_entry_map_delete: "no_entry h r \<Longrightarrow> no_entry h (map_delete k r)"
  using set_map_delete[of k r] unfolding no_entry_iff by blast

lemma no_entry_lookup:
  "no_entry h r \<Longrightarrow> map_of r k = Some v \<Longrightarrow> k \<noteq> h \<and> playerId v \<noteq> h"
  unfolding no_entry_iff by (auto dest!: map_of_SomeD)

lemma absent_nth: "absent h s \<longleftrightarrow> (\<forall>b < length (rosters s). no_entry h (rosters s ! b))"
  by (simp add: absent_def all_set_conv_all_nth)

lemma absent_same: "absent h s \<Longrightarrow> rosters s' = rosters s \<Longrightarrow> absent h s'"
  by (simp add: absent_def)

lemma absent_update:
  "absent h s \<Longrightarrow> no_entry h r \<Longrightarrow> rosters s' = (rosters s)[a := r] \<Longrightarrow> absent h s'"
  unfolding absent_def using set_update_subset_insert[of "rosters s" a r] by auto

lemma harmless_listing:
  assumes "absent h s"
      and "event_players (snd em) = [] \<or> event_players (snd em) \<in> set (map map_values (rosters s))"
  shows "\<not> in_roster h em"
  using assms by (auto simp: in_roster_def absent_def no_entry_def)

lemma absent_step:
  assumes ab: "absent h s"
      and nj: "\<forall>g u. i \<noteq> Command h (JoinGame g u)"
      and st: "step i s = Inr (s', evs)"
  shows "absent h s' \<and> (\<forall>em \<in> set evs. \<not> in_roster h em \<and> \<not> credits h em)"
proof (cases i)
  case (Elapse d)
  with st have "s' = elapse d s" "evs = []" by auto
  then show ?thesis using absent_same[OF ab, of s'] by (simp add: elapse_quiet)
next
  case TimerFires
  with st have s': "s' = fst (timer_fires s)" "evs = snd (timer_fires s)" by auto
  have "absent h s'" by (rule absent_same[OF ab]) (simp add: s' timer_fires_quiet)
  moreover have "\<not> in_roster h em \<and> \<not> credits h em" if "em \<in> set evs" for em
    using timer_fires_quiet(3)[of em s h] that harmless_listing[OF ab, of em] by (simp add: s')
  ultimately show ?thesis by blast
next
  case (Command socket c)
  show ?thesis
  proof (cases c)
    case (NextQuestion g)
    with Command st have s': "s' = fst (nextQuestion g s)" "evs = snd (nextQuestion g s)" by auto
    have "absent h s'" by (rule absent_same[OF ab]) (simp add: s' nextQuestion_quiet)
    moreover have "\<not> in_roster h em \<and> \<not> credits h em" if "em \<in> set evs" for em
      using nextQuestion_quiet(3)[of em g s h] that harmless_listing[OF ab, of em] by (simp add: s')
    ultimately show ?thesis by blast
  next
    case (StartCountdown g)
    with Command st have s': "s' = fst (startCountdown g s)" "evs = snd (startCountdown g s)" by auto
    have "absent h s'" by (rule absent_same[OF ab]) (simp add: s' startCountdown_quiet)
    moreover have "\<not> in_roster h em \<and> \<not> credits h em" if "em \<in> set evs" for em
      using startCountdown_quiet(3)[of em g s h] that by (simp add: s' in_roster_def)
    ultimately show ?thesis by blast
  next
    case (CreateGame qz code)
    with Command st have s': "s' = fst (createGame socket qz code s)"
      "evs = snd (createGame socket qz code s)" by auto
    show ?thesis using ab
      by (auto simp: s' absent_def createGame_effect no_entry_Nil in_roster_def)
  next
    case (JoinGame g u)
    with Command st have s': "s' = fst (joinGame socket g u s)" "evs = snd (joinGame socket g u s)"
      by auto
    have ne: "socket \<noteq> h" using nj Command JoinGame by auto
    show ?thesis
    proof (cases "get_game s g")
      case None
      then show ?thesis using ab by (simp add: s' joinGame_effect(2) in_roster_def)
    next
      case (Some ag)
      obtain a game where ag: "ag = (a, game)" by (cases ag)
      note gg = Some[unfolded ag]
      note eff = joinGame_effect(3)[where socket = socket and uname = u, OF gg]
      have a: "a < length (rosters s)" using get_game_SomeD[OF gg] by (simp add: rosters_length)
      have "no_entry h (rosters s ! a)" using ab a by (simp add: absent_nth)
      then have "no_entry h (map_set socket \<lparr>playerId = socket, username = u, score = 0\<rparr> (rosters s ! a))"
        using ne by (intro no_entry_map_set) simp_all
      from absent_update[OF ab this, of s' a] eff ne show ?thesis
        by (simp add: s' in_roster_def)
    qed
  next
    case (SubmitAnswer g ai)
    with Command st have sub: "submitAnswer socket g ai s = Inr (s', evs)" by simp
    from submitAnswer_effect(2)[OF sub] show ?thesis
    proof
      assume "rosters s' = rosters s \<and> evs = []"
      then show ?thesis using absent_same[OF ab, of s'] by simp
    next
      assume "\<exists>a player. map_of (activeGames s) g = Some a \<and> a < length (rosters s) \<and>
          map_of (rosters s ! a) socket = Some player \<and>
          rosters s' = (rosters s)[a := map_set socket (player\<lparr>score := score player + 1000\<rparr>) (rosters s ! a)] \<and>
          evs = [(Room g, ScoreUpdate socket (score player + 1000))]"
      then obtain a player where a: "a < length (rosters s)"
        and pl: "map_of (rosters s ! a) socket = Some player"
        and r': "rosters s' = (rosters s)[a := map_set socket (player\<lparr>score := score player + 1000\<rparr>) (rosters s ! a)]"
        and ev: "evs = [(Room g, ScoreUpdate socket (score player + 1000))]"
        by blast
      have n: "no_entry h (rosters s ! a)" using ab a by (simp add: absent_nth)
      from no_entry_lookup[OF n pl] have ne: "socket \<noteq> h" "playerId player \<noteq> h" by auto
      have "no_entry h (map_set socket (player\<lparr>score := score player + 1000\<rparr>) (rosters s ! a))"
        using n ne by (intro no_entry_map_set) simp_all
      from absent_update[OF ab this r'] ne show ?thesis
        by (simp add: ev in_roster_def)
    qed
  next
    case Disconnect
    with Command st have s': "s' = fst (disconnect socket s)" "evs = snd (disconnect socket s)"
      by auto
    note eff = disconnect_effect(1-3)[where socket = socket and s = s]
    have "no_entry h (rosters s' ! b)" if "b < length (rosters s')" for b
    proof -
      from that have b: "b < length (rosters s)" by (simp add: s' eff(2))
      then have "no_entry h (rosters s ! b)" using ab by (simp add: absent_nth)
      then show ?thesis using eff(3)[OF b] by (simp add: s' no_entry_map_delete)
    qed
    then have "absent h s'" by (simp add: absent_nth)
    moreover have "\<not> in_roster h em \<and> \<not> credits h em" if "em \<in> set evs" for em
      using disconnect_effect(4)[of em socket s h] that by (simp add: s' in_roster_def)
    ultimately show ?thesis by blast
  qed
qed

lemma absent_run:
  assumes "absent h s" and "\<forall>g u. Command h (JoinGame g u) \<notin> set tr"
  shows "\<forall>em \<in> set (snd (run tr s)). \<not> in_roster h em \<and> \<not> credits h em"
  using assms
proof (induction tr arbitrary: s)
  case Nil
  then show ?case by simp
next
  case (Cons i tr)
  show ?case
  proof (cases "step i s")
    case (Inl e)
    then show ?thesis by (simp add: run_Cons del: run.simps(2))
  next
    case (Inr r)
    obtain s1 evs where r: "r = (s1, evs)" by (cases r)
    have nj: "\<forall>g u. i \<noteq> Command h (JoinGame g u)" using Cons.prems(2) by auto
    from absent_step[OF Cons.prems(1) nj Inr[unfolded r]]
    have ab1: "absent h s1" and evs: "\<forall>em \<in> set evs. \<not> in_roster h em \<and> \<not> credits h em" by auto
    have "\<forall>em \<in> set (snd (run tr s1)). \<not> in_roster h em \<and> \<not> credits h em"
      using Cons.IH[OF ab1] Cons.prems(2) by simp
    with evs show ?thesis by (auto simp: run_Cons Inr r simp del: run.simps(2))
  qed
qed

lemma absent_init: "absent h init"
  by (simp add: absent_def rosters_def init_def)

text \<open>
  Claim C10. The player map of a session holds exactly the connections that sent
  \<^verbatim>\<open>joinGame\<close> for it since it was created and have not disconnected since. \<^verbatim>\<open>createGame\<close>
  adds nobody: right after it the player map is empty. A connection that never sends
  \<^verbatim>\<open>joinGame\<close> (the host, if it only creates and drives the game) is in no roster the
  server emits (\<^verbatim>\<open>playerJoined\<close>, \<^verbatim>\<open>updatedPlayers\<close> of \<^verbatim>\<open>revealAnswer\<close>, \<^verbatim>\<open>gameOver\<close>) and no
  \<^verbatim>\<open>scoreUpdate\<close> ever credits it.
\<close>

theorem player_map_is_joined_and_not_left:
  "(\<forall>s. state_after tr = Some s \<longrightarrow> player_ids s gameId = joined_and_not_left gameId tr) \<and>
   (state_after tr \<noteq> None \<longrightarrow>
      map_option players (session_after (tr @ [Command host (CreateGame qz code)]) code) = Some []) \<and>
   ((\<forall>g u. Command host (JoinGame g u) \<notin> set tr) \<longrightarrow>
      (\<forall>em \<in> set (snd (run tr init)). \<not> in_roster host em \<and> \<not> credits host em))"
proof (intro conjI allI impI)
  fix s assume s: "state_after tr = Some s"
  then have "fst (run tr init) = Inr s" by (auto simp: state_after_def split: sum.splits)
  from player_ids_run[OF wf_init this, of gameId]
  show "player_ids s gameId = joined_and_not_left gameId tr"
    by (simp add: joined_and_not_left_def player_ids_def get_game_def map_get_def init_def)
next
  assume "state_after tr \<noteq> None"
  then obtain s where s: "state_after tr = Some s" by auto
  have "state_after (tr @ [Command host (CreateGame qz code)]) = Some (fst (createGame host qz code s))"
    by (simp add: state_after_snoc(1)[OF s])
  then show "map_option players (session_after (tr @ [Command host (CreateGame qz code)]) code) = Some []"
    by (simp add: session_after_def get_game_createGame[OF wf_state_after[OF s]])
next
  assume "\<forall>g u. Command host (JoinGame g u) \<notin> set tr"
  from absent_run[OF absent_init this]
  show "\<forall>em \<in> set (snd (run tr init)). \<not> in_roster host em \<and> \<not> credits host em" .
qed

theorem player_map_is_joined_and_not_left_witness:
  "state_after ex_answered2 = Some ex_scored2 \<and>
   player_ids ex_scored2 ''abc'' = Some {''P''} \<and>
   joined_and_not_left ''abc'' ex_answered2 = Some {''P''} \<and>
   state_after ex_answered2 \<noteq> None \<and>
   map_option players (session_after (ex_answered2 @ [Command ''H'' (CreateGame ex_quiz1 ''abc'')]) ''abc'')
     = Some [] \<and>
   Command ''H'' (JoinGame ''abc'' ''host'') \<notin> set ex_answered2 \<and>
   (Room ''abc'', PlayerJoined \<lparr>playerId = ''P'', username = ''pat'', score = 0\<rparr>)
     \<in> set (snd (run ex_answered2 init)) \<and>
   \<not> in_roster ''H'' (Room ''abc'', PlayerJoined \<lparr>playerId = ''P'', username = ''pat'', score = 0\<rparr>) \<and>
   (Room ''abc'', ScoreUpdate ''P'' 1000) \<in> set (snd (run ex_answered2 init)) \<and>
   \<not> credits ''H'' (Room ''abc'', ScoreUpdate ''P'' 1000)"
proof -
  note inst = player_map_is_joined_and_not_left [of ex_answered2 "''abc''" "''H''" ex_quiz1 "''abc''"]
  have r: "state_after ex_answered2 = Some ex_scored2"
    by (simp add: ex_defs eval_defs)
  have j: "joined_and_not_left ''abc'' ex_answered2 = Some {''P''}"
    by (simp add: ex_defs joined_and_not_left_def)
  have nj: "\<forall>g u. Command ''H'' (JoinGame g u) \<notin> set ex_answered2"
    by (simp add: ex_defs)
  have ev: "(Room ''abc'', PlayerJoined \<lparr>playerId = ''P'', username = ''pat'', score = 0\<rparr>)
              \<in> set (snd (run ex_answered2 init))"
           "(Room ''abc'', ScoreUpdate ''P'' 1000) \<in> set (snd (run ex_answered2 init))"
    by (simp_all add: ex_defs eval_defs)
  have nn: "state_after ex_answered2 \<noteq> None" using r by simp
  have nj1: "Command ''H'' (JoinGame ''abc'' ''host'') \<notin> set ex_answered2" using nj by blast
  note c1 = inst[THEN conjunct1, rule_format, OF r]
  note c2 = inst[THEN conjunct2, THEN conjunct1, THEN mp, OF nn]
  note c3 = inst[THEN conjunct2, THEN conjunct2, THEN mp, OF nj]
  have 1: "player_ids ex_scored2 ''abc'' = Some {''P''}" using c1 j by simp
  have 3:
    "\<not> in_roster ''H'' (Room ''abc'', PlayerJoined \<lparr>playerId = ''P'', username = ''pat'', score = 0\<rparr>)"
    "\<not> credits ''H'' (Room ''abc'', ScoreUpdate ''P'' 1000)"
    using c3[THEN bspec, OF ev(1)] c3[THEN bspec, OF ev(2)] by blast+
  show ?thesis by (intro conjI r j 1 c2 3 ev nj1 nn)
qed

subsection \<open>The question timer of a session holds its current question\<close>




lemma get_game_fun: "get_game s g = Some (a, game) \<Longrightarrow> get_game s g' = Some (a, game') \<Longrightarrow> game' = game"
  by (auto dest!: get_game_SomeD(3))













lemma wf_put_game [simp]: "wf (put_game a game s) = wf s"
  by (simp add: wf_def)

lemma wf_other [simp]:
  "wf (s\<lparr>pending := ps\<rparr>) = wf s" "wf (s\<lparr>now := n\<rparr>) = wf s" "wf (s\<lparr>nextHandle := h\<rparr>) = wf s"
  by (simp_all add: wf_def)




lemma owners_ok_put_game [simp]: "owners_ok (put_game a game s) = owners_ok s"
  by (simp add: owners_ok_def)

























subsection \<open>A stale timer, and an answer after the end\<close>

text \<open>
  Claim C1. The claim is that one forced \<^verbatim>\<open>nextQuestion\<close>, sent before the pending timer
  fires, gives exactly one \<^verbatim>\<open>revealAnswer\<close>, that at most one timer is pending, and that
  no stale timer fires later. Two runs show what the code does.

  On a one-question game the handler reaches the end of the quiz and returns before
  \<^verbatim>\<open>startQuestionTimer\<close>, the only place that clears \<^verbatim>\<open>game.timer\<close>: the question timer
  stays pending, fires at its time and reveals the same question again, and its 3000 ms
  callback emits \<^verbatim>\<open>gameOver\<close> a second time.

  On a two-question game, a \<^verbatim>\<open>nextQuestion\<close> sent during the reveal pause of question 1
  arms the timer of question 2 while the 3000 ms callback is still pending (its handle is
  stored nowhere, so nothing can clear it): two callbacks are pending at once, and the
  stale one ends the game two seconds into question 2.
\<close>

theorem stale_question_timer_reveals_twice:
  "snd (run (ex_started1 @ [Elapse 1000, Command ''H'' (NextQuestion ''abc''), TimerFires, TimerFires]) init) =
     [(Caller ''H'', GameCreated ''abc''),
      (Room ''abc'', PlayerJoined \<lparr>playerId = ''P'', username = ''pat'', score = 0\<rparr>),
      (Room ''abc'', StartCountdownEv),
      (Room ''abc'', NewQuestion ex_q1 5),
      (Room ''abc'', RevealAnswer 3 [] [\<lparr>playerId = ''P'', username = ''pat'', score = 0\<rparr>]),
      (Room ''abc'', GameOver [\<lparr>playerId = ''P'', username = ''pat'', score = 0\<rparr>]),
      (Room ''abc'', RevealAnswer 3 [] [\<lparr>playerId = ''P'', username = ''pat'', score = 0\<rparr>]),
      (Room ''abc'', GameOver [\<lparr>playerId = ''P'', username = ''pat'', score = 0\<rparr>])] \<and>
   length (filter is_reveal
     (snd (run (ex_started1 @ [Elapse 1000, Command ''H'' (NextQuestion ''abc''), TimerFires, TimerFires]) init))) = 2 \<and>
   pending_after (ex_started1 @ [Elapse 1000, Command ''H'' (NextQuestion ''abc'')]) =
     [QuestionTimeout ''abc'' 0 ex_q1] \<and>
   pending_after (ex_started2 @ [TimerFires, Elapse 1000, Command ''H'' (NextQuestion ''abc'')]) =
     [RevealPause ''abc'' 0, QuestionTimeout ''abc'' 0 ex_q2] \<and>
   snd (run (ex_started2 @ [TimerFires, Elapse 1000, Command ''H'' (NextQuestion ''abc''), TimerFires]) init) =
     [(Caller ''H'', GameCreated ''abc''),
      (Room ''abc'', PlayerJoined \<lparr>playerId = ''P'', username = ''pat'', score = 0\<rparr>),
      (Room ''abc'', StartCountdownEv),
      (Room ''abc'', NewQuestion ex_q1 5),
      (Room ''abc'', RevealAnswer 3 [] [\<lparr>playerId = ''P'', username = ''pat'', score = 0\<rparr>]),
      (Room ''abc'', RevealAnswer 3 [] [\<lparr>playerId = ''P'', username = ''pat'', score = 0\<rparr>]),
      (Room ''abc'', NewQuestion ex_q2 10),
      (Room ''abc'', GameOver [\<lparr>playerId = ''P'', username = ''pat'', score = 0\<rparr>])]"
  by (simp add: ex_defs eval_defs)

text \<open>
  Claim C5. The claim is that a \<^verbatim>\<open>submitAnswer\<close> with no question active is ignored
  without a crash. After the game has run to its end on its own timers the index equals
  the number of questions; a player's \<^verbatim>\<open>submitAnswer\<close> is then recorded and the handler
  raises on \<^verbatim>\<open>currentQuestion.correctAnswer\<close>.
\<close>

theorem submitAnswer_after_game_over_raises:
  "run (ex_started1 @ [TimerFires, TimerFires, Command ''P'' (SubmitAnswer ''abc'' 3)]) init =
     (Inl TypeError,
      [(Caller ''H'', GameCreated ''abc''),
       (Room ''abc'', PlayerJoined \<lparr>playerId = ''P'', username = ''pat'', score = 0\<rparr>),
       (Room ''abc'', StartCountdownEv),
       (Room ''abc'', NewQuestion ex_q1 5),
       (Room ''abc'', RevealAnswer 3 [] [\<lparr>playerId = ''P'', username = ''pat'', score = 0\<rparr>]),
       (Room ''abc'', GameOver [\<lparr>playerId = ''P'', username = ''pat'', score = 0\<rparr>])])"
  by (simp add: ex_defs eval_defs)

end
